theory Spec2Isabelle
  imports Main
begin

section \<open>string\_util.cpp: URL encoding and decoding\<close>

text \<open>
  A \<open>std::string\<close> is a \<open>string\<close> (a list of 8-bit \<open>char\<close>s); a byte is read as a
  number with \<open>of_char\<close>.

  \<open>s3fs_hex\<close> writes two digits of the given alphabet for every input byte;
  \<open>s3fs_hex_upper\<close> fixes the alphabet.  \<open>rawUrlEncode\<close> calls it with one byte.
\<close>

definition s3fs_hex :: "string \<Rightarrow> string \<Rightarrow> string" where
  "s3fs_hex input hexAlphabet =
     concat (map (\<lambda>c. [hexAlphabet ! (of_char c div 16), hexAlphabet ! (of_char c mod 16)]) input)"

definition s3fs_hex_upper :: "string \<Rightarrow> string" where
  "s3fs_hex_upper input = s3fs_hex input ''0123456789ABCDEF''"

definition encode_general_except_chars :: string where
  "encode_general_except_chars = ''.-_~''"

definition encode_path_except_chars :: string where
  "encode_path_except_chars = ''.-_~/''"

definition encode_query_except_chars :: string where
  "encode_query_except_chars = ''.-_~=&%''"

text \<open>
  \<open>strchr(except_chars, c)\<close> also finds the terminating NUL of \<open>except_chars\<close>, so the
  byte 0 counts as an excepted character.
\<close>

definition strchr_found :: "string \<Rightarrow> char \<Rightarrow> bool" where
  "strchr_found except_chars c \<longleftrightarrow> c \<in> set except_chars \<or> (of_char c :: nat) = 0"

definition url_unreserved :: "string \<Rightarrow> char \<Rightarrow> bool" where
  "url_unreserved except_chars c \<longleftrightarrow>
     strchr_found except_chars c \<or>
     ((of_char (CHR ''a'') :: nat) \<le> of_char c \<and> (of_char c :: nat) \<le> of_char (CHR ''z'')) \<or>
     ((of_char (CHR ''A'') :: nat) \<le> of_char c \<and> (of_char c :: nat) \<le> of_char (CHR ''Z'')) \<or>
     ((of_char (CHR ''0'') :: nat) \<le> of_char c \<and> (of_char c :: nat) \<le> of_char (CHR ''9''))"

fun rawUrlEncode :: "string \<Rightarrow> string \<Rightarrow> string" where
  "rawUrlEncode [] except_chars = []"
| "rawUrlEncode (c # s) except_chars =
     (if url_unreserved except_chars c then [c] else CHR ''%'' # s3fs_hex_upper [c])
       @ rawUrlEncode s except_chars"

definition urlEncodeGeneral :: "string \<Rightarrow> string" where
  "urlEncodeGeneral s = rawUrlEncode s encode_general_except_chars"

definition urlEncodePath :: "string \<Rightarrow> string" where
  "urlEncodePath s = rawUrlEncode s encode_path_except_chars"

definition urlEncodeQuery :: "string \<Rightarrow> string" where
  "urlEncodeQuery s = rawUrlEncode s encode_query_except_chars"

text \<open>
  The value \<open>urlDecode\<close> adds to \<open>ch\<close> for one character after a percent sign: the
  nested conditional of the source, whose last alternative is \<open>0x00\<close>.
\<close>

definition hex_digit_value :: "char \<Rightarrow> nat" where
  "hex_digit_value c =
     (if (of_char (CHR ''0'') :: nat) \<le> of_char c \<and> (of_char c :: nat) \<le> of_char (CHR ''9'')
        then of_char c - of_char (CHR ''0'')
      else if (of_char (CHR ''A'') :: nat) \<le> of_char c \<and> (of_char c :: nat) \<le> of_char (CHR ''F'')
        then of_char c - of_char (CHR ''A'') + 10
      else if (of_char (CHR ''a'') :: nat) \<le> of_char c \<and> (of_char c :: nat) \<le> of_char (CHR ''f'')
        then of_char c - of_char (CHR ''a'') + 10
      else 0)"

text \<open>The hexadecimal digits.\<close>

definition is_hex_digit :: "char \<Rightarrow> bool" where
  "is_hex_digit c \<longleftrightarrow> c \<in> set ''0123456789ABCDEFabcdef''"

text \<open>
  The loop of \<open>urlDecode\<close>: the first argument is the input from position \<open>i\<close> on, the
  second is \<open>result\<close>.  The two \<open>break\<close>s leave the loop with \<open>result\<close> as it is.
\<close>

fun urlDecode_loop :: "string \<Rightarrow> string \<Rightarrow> string" where
  "urlDecode_loop [] result = result"
| "urlDecode_loop (c # s) result =
     (if c \<noteq> CHR ''%'' then urlDecode_loop s (result @ [c])
      else (case s of
              [] \<Rightarrow> result
            | [h] \<Rightarrow> result
            | h # l # rest \<Rightarrow>
                urlDecode_loop rest
                  (result @ [char_of (hex_digit_value h * 16 + hex_digit_value l)])))"

definition urlDecode :: "string \<Rightarrow> string" where
  "urlDecode s = urlDecode_loop s []"


section \<open>string\_util.cpp: encoding of carriage returns\<close>

text \<open>
  \<open>std::string::find_first_of(chars, startpos)\<close> and \<open>std::string::find(c, startpos)\<close>
  on the part of the string that starts at \<open>startpos\<close>: the offset of the first
  character that is one of \<open>chars\<close>, \<open>None\<close> for \<open>npos\<close>.
\<close>

fun find_first_of :: "string \<Rightarrow> string \<Rightarrow> nat option" where
  "find_first_of chars [] = None"
| "find_first_of chars (c # s) =
     (if c \<in> set chars then Some 0 else map_option Suc (find_first_of chars s))"

text \<open>
  The loops of \<open>get_encoded_cr_code\<close> and \<open>get_decoded_cr_code\<close>.  The first argument
  is the input from \<open>startpos\<close> on, the second is \<open>result\<close>; the final
  \<open>if(startpos < length) result += substr(startpos)\<close> is the \<open>None\<close> branch.  A
  \<open>const char*\<close> argument is \<open>None\<close> for \<open>nullptr\<close> and otherwise the characters
  before the terminating NUL.
\<close>

function cr_encode_loop :: "string \<Rightarrow> string \<Rightarrow> string" where
  "cr_encode_loop s result =
     (if s = [] then result
      else (case find_first_of [CHR ''%'', CHR 0x0D] s of
              None \<Rightarrow> result @ s
            | Some foundpos \<Rightarrow>
                cr_encode_loop (drop (foundpos + 1) s)
                  (result @ take foundpos s @
                     (if s ! foundpos = CHR ''%'' then ''%45''
                      else if s ! foundpos = CHR 0x0D then ''%0D'' else []))))"
  by pat_completeness auto
termination
  by (relation "measure (\<lambda>(s, result). length s)") auto

definition get_encoded_cr_code :: "string option \<Rightarrow> string" where
  "get_encoded_cr_code pbase =
     (case pbase of None \<Rightarrow> [] | Some strbase \<Rightarrow> cr_encode_loop strbase [])"

function cr_decode_loop :: "string \<Rightarrow> string \<Rightarrow> string" where
  "cr_decode_loop s result =
     (if s = [] then result
      else (case find_first_of [CHR ''%''] s of
              None \<Rightarrow> result @ s
            | Some foundpos \<Rightarrow>
                (let result1 = result @ take foundpos s; t = drop foundpos s in
                 if take 3 t = ''%45'' then cr_decode_loop (drop 3 t) (result1 @ [CHR ''%''])
                 else if take 3 t = ''%0D'' then cr_decode_loop (drop 3 t) (result1 @ [CHR 0x0D])
                 else if take 2 t = ''%%'' then cr_decode_loop (drop 2 t) (result1 @ [CHR ''%''])
                 else cr_decode_loop (drop 1 t) (result1 @ [CHR ''%'']))))"
  by pat_completeness auto
termination
  by (relation "measure (\<lambda>(s, result). length s)") auto

definition get_decoded_cr_code :: "string option \<Rightarrow> string" where
  "get_decoded_cr_code pencode =
     (case pencode of None \<Rightarrow> [] | Some strencode \<Rightarrow> cr_decode_loop strencode [])"


text \<open>
  Which branch the decoder takes at a percent sign, as the number of characters it
  consumes and the character it writes (used to state the unfolding of the loop).
\<close>

definition cr_decode_skip :: "string \<Rightarrow> nat" where
  "cr_decode_skip t =
     (if take 3 t = ''%45'' then 3 else if take 3 t = ''%0D'' then 3
      else if take 2 t = ''%%'' then 2 else 1)"

definition cr_decode_char :: "string \<Rightarrow> char" where
  "cr_decode_char t = (if take 3 t = ''%45'' then CHR ''%'' else if take 3 t = ''%0D'' then CHR 0x0D else CHR ''%'')"




section \<open>fdcache\_fdinfo.cpp: the upload coordinator\<close>

text \<open>
  \<open>off_t\<close> and \<open>int\<close> values are unbounded integers: the arithmetic of the code
  never relies on wrap-around (signed overflow is undefined in C++), and its divisions
  are applied to non-negative numbers only, where truncation and \<open>div\<close> agree.  The
  one place where a value is narrowed is \<open>static_cast<int>\<close> of an \<open>off_t\<close>, which
  keeps the value modulo \<open>2^32\<close> in the range of a 32-bit \<open>int\<close>: that is \<open>int_cast\<close>.
  (\<open>AppendUploadPart\<close> casts the length of the upload list, which is taken as it is:
  the list would have to hold \<open>2^31\<close> parts for the cast to change it.)

  The structures \<open>etagpair\<close>, \<open>filepart\<close>, \<open>mp_part\<close> and \<open>untreatedpart\<close> are
  declared in headers that are not among the sources; the records have the fields the
  code reads and writes.  The fields of \<open>etagpair\<close>, \<open>mp_part\<close> and
  \<open>untreatedpart\<close> carry a prefix, and \<open>filepart::size\<close> is \<open>fp_size\<close>.  A \<open>filepart\<close> points to its
  \<open>etagpair\<close>; no function modelled here writes through that pointer, so the record
  holds the entity itself (\<open>None\<close> for \<open>nullptr\<close>).
\<close>

type_synonym off_t = int

definition int_cast :: "off_t \<Rightarrow> int" where
  "int_cast x = (x + 2147483648) mod 4294967296 - 2147483648"

record etagpair =
  ep_etag :: "string option"
  ep_part_num :: int

record filepart =
  uploaded :: bool
  fd :: int
  startpos :: off_t
  fp_size :: off_t
  is_copy :: bool
  petag :: "etagpair option"

record mp_part =
  mp_start :: off_t
  mp_size :: off_t
  mp_part_num :: int

record untreatedpart =
  ut_start :: off_t
  ut_size :: off_t

text \<open>
  \<open>filepart::get_part_number\<close>, as the debug output of
  \<open>UploadBoundaryLastUntreatedArea\<close> spells it out: the part number of the entity,
  \<open>-1\<close> without one.
\<close>

definition get_part_number :: "filepart \<Rightarrow> int" where
  "get_part_number p = (case petag p of None \<Rightarrow> - 1 | Some e \<Rightarrow> ep_part_num e)"

text \<open>
  Modelled from the spec: the constants \<open>MIN_MULTIPART_SIZE\<close> and \<open>FIVE_GB\<close> are
  defined outside the sources; the spec gives the minimum part size as 5 MiB and the
  largest single copy as 5 GiB.  The \<open>errno\<close> values are those of Linux.
\<close>

definition MIN_MULTIPART_SIZE :: off_t where
  "MIN_MULTIPART_SIZE = 5 * 1024 * 1024"

definition FIVE_GB :: off_t where
  "FIVE_GB = 5 * 1024 * 1024 * 1024"

definition EIO :: int where "EIO = 5"
definition EBADF :: int where "EBADF = 9"

text \<open>The members of \<open>PseudoFdInfo\<close>; \<open>uploaded_sem\<close> is the value of the semaphore.\<close>

record PseudoFdInfo =
  pseudo_fd :: int
  physical_fd :: int
  flags :: int
  upload_id :: string
  upload_fd :: int
  upload_list :: "filepart list"
  etag_entities :: "etagpair list"
  instruct_count :: int
  last_result :: int
  uploaded_sem :: nat

definition IsUploadingHasLock :: "PseudoFdInfo \<Rightarrow> bool" where
  "IsUploadingHasLock st \<longleftrightarrow> upload_id st \<noteq> []"

text \<open>
  \<open>AppendUploadPart\<close> returns its \<open>bool\<close>, the entity written to \<open>*ppetag\<close> (if the
  caller passed a pointer) and the object after the call.
\<close>

definition AppendUploadPart ::
  "off_t \<Rightarrow> off_t \<Rightarrow> bool \<Rightarrow> PseudoFdInfo \<Rightarrow> bool \<times> etagpair option \<times> PseudoFdInfo" where
  "AppendUploadPart start sz is_cp st =
     (if \<not> IsUploadingHasLock st then (False, None, st)
      else
        let next_start_pos =
              (if upload_list st \<noteq> []
               then startpos (last (upload_list st)) + fp_size (last (upload_list st))
               else 0)
        in if start \<noteq> next_start_pos then (False, None, st)
           else
             let partnumber = int (length (upload_list st)) + 1;
                 petag_entity = \<lparr>ep_etag = None, ep_part_num = partnumber\<rparr>
             in (True, Some petag_entity,
                 st\<lparr>etag_entities := etag_entities st @ [petag_entity],
                    upload_list := upload_list st @
                      [\<lparr>uploaded = False, fd = physical_fd st, startpos = start, fp_size = sz,
                        is_copy = is_cp, petag = Some petag_entity\<rparr>]\<rparr>))"


subsection \<open>ExtractUploadPartsFromAllArea\<close>

text \<open>
  The first inner loop: it moves the untreated areas that overlap the current area
  \<open>[cur_start, cur_start + cur_size)\<close> into \<open>cur_untreated_list\<close>.  The list argument
  is \<open>dup_untreated_list\<close> from \<open>dup_untreated_iter\<close> on: what lies before the iterator
  is never read again, so an erased element and a skipped one are both dropped.  An area
  that reaches beyond the current area is cut in place and the loop looks at it again.
\<close>

definition untreated_overlaps :: "off_t \<Rightarrow> off_t \<Rightarrow> untreatedpart \<Rightarrow> bool" where
  "untreated_overlaps cur_start cur_size u \<longleftrightarrow>
     ut_start u < cur_start + cur_size \<and> cur_start < ut_start u + ut_size u"

function extract_cur_untreated ::
  "off_t \<Rightarrow> off_t \<Rightarrow> untreatedpart list \<Rightarrow> untreatedpart list
     \<Rightarrow> untreatedpart list \<times> untreatedpart list" where
  "extract_cur_untreated cur_start cur_size [] cur_untreated_list = (cur_untreated_list, [])"
| "extract_cur_untreated cur_start cur_size (u # us) cur_untreated_list =
     (if untreated_overlaps cur_start cur_size u then
        (let tmp_untreated_start = (if ut_start u < cur_start then cur_start else ut_start u);
             tmp_untreated_size =
               (if ut_start u < cur_start then ut_size u - (cur_start - ut_start u)
                else ut_size u)
         in if tmp_untreated_start + tmp_untreated_size \<le> cur_start + cur_size then
              extract_cur_untreated cur_start cur_size us
                (cur_untreated_list @
                   [\<lparr>ut_start = tmp_untreated_start, ut_size = tmp_untreated_size\<rparr>])
            else
              (let tmp_untreated_size2 = (cur_start + cur_size) - tmp_untreated_start
               in extract_cur_untreated cur_start cur_size
                    (\<lparr>ut_start = tmp_untreated_start + tmp_untreated_size2,
                      ut_size = (ut_start u + ut_size u) - (cur_start + cur_size)\<rparr> # us)
                    (cur_untreated_list @
                       [\<lparr>ut_start = tmp_untreated_start, ut_size = tmp_untreated_size2\<rparr>])))
      else if cur_start + cur_size - 1 < ut_start u then (cur_untreated_list, u # us)
      else extract_cur_untreated cur_start cur_size us cur_untreated_list)"
  by pat_completeness auto
termination
  by (relation "measures
        [\<lambda>(cur_start, cur_size, dup, cur). length dup,
         \<lambda>(cur_start, cur_size, dup, cur).
            (if dup \<noteq> [] \<and> untreated_overlaps cur_start cur_size (hd dup) then 1 else 0)]")
     (auto simp: untreated_overlaps_def Let_def)

text \<open>
  The second inner loop: \<open>uploaded_iter\<close> and \<open>overlap_uploaded_iter\<close> are positions
  in \<open>upload_list\<close>; \<open>None\<close> is \<open>upload_list.end()\<close> for the overlap iterator.  The
  result \<open>None\<close> is the \<open>return false\<close> at a second overlapping part.
\<close>

function scan_uploaded ::
  "filepart list \<Rightarrow> off_t \<Rightarrow> off_t \<Rightarrow> nat \<Rightarrow> nat option \<Rightarrow> (nat \<times> nat option) option" where
  "scan_uploaded ul cur_start cur_size uploaded_iter overlap_uploaded_iter =
     (if uploaded_iter < length ul then
        (if cur_start < startpos (ul ! uploaded_iter) + fp_size (ul ! uploaded_iter)
            \<and> startpos (ul ! uploaded_iter) < cur_start + cur_size then
           (if overlap_uploaded_iter \<noteq> None then None
            else scan_uploaded ul cur_start cur_size (uploaded_iter + 1) (Some uploaded_iter))
         else if cur_start + cur_size - 1 < startpos (ul ! uploaded_iter) then
           Some (uploaded_iter, overlap_uploaded_iter)
         else scan_uploaded ul cur_start cur_size (uploaded_iter + 1) overlap_uploaded_iter)
      else Some (uploaded_iter, overlap_uploaded_iter))"
  by pat_completeness auto
termination
  by (relation "measure (\<lambda>(ul, cur_start, cur_size, it, ov). length ul - it)") auto

text \<open>
  The loop over \<open>cur_untreated_list\<close> in an area that has untreated data and no
  uploaded part.  A gap in front of an untreated area is either added to the last copy
  part (only in front of the first untreated area) or has to be downloaded.  A download
  entry is built without a part number; the constructor of \<open>mp_part\<close> then sets 0.
\<close>

record gap_state =
  tmp_cur_start :: off_t
  tmp_cur_size :: off_t
  changed_start :: off_t
  changed_size :: off_t
  first_area :: bool
  gs_to_copy_list :: "mp_part list"
  gs_to_download_list :: "mp_part list"

definition can_unify_copy :: "bool \<Rightarrow> gap_state \<Rightarrow> untreatedpart \<Rightarrow> bool" where
  "can_unify_copy use_copy g u \<longleftrightarrow>
     first_area g \<and> use_copy \<and> gs_to_copy_list g \<noteq> [] \<and>
     mp_start (last (gs_to_copy_list g)) + mp_size (last (gs_to_copy_list g)) = tmp_cur_start g \<and>
     mp_size (last (gs_to_copy_list g)) + (ut_start u - tmp_cur_start g) \<le> FIVE_GB \<and>
     (tmp_cur_start g + tmp_cur_size g) - ut_start u \<ge> MIN_MULTIPART_SIZE"

definition gap_step :: "bool \<Rightarrow> gap_state \<Rightarrow> untreatedpart \<Rightarrow> gap_state" where
  "gap_step use_copy g u =
     (let g1 =
        (if tmp_cur_start g < ut_start u then
           (if can_unify_copy use_copy g u then
              g\<lparr>gs_to_copy_list :=
                  butlast (gs_to_copy_list g) @
                    [(last (gs_to_copy_list g))
                       \<lparr>mp_size := mp_size (last (gs_to_copy_list g))
                                    + (ut_start u - tmp_cur_start g)\<rparr>],
                changed_size := changed_size g - (ut_start u - changed_start g),
                changed_start := ut_start u\<rparr>
            else
              g\<lparr>gs_to_download_list :=
                  gs_to_download_list g @
                    [\<lparr>mp_start = tmp_cur_start g, mp_size = ut_start u - tmp_cur_start g,
                      mp_part_num = 0\<rparr>]\<rparr>)
         else g)
      in g1\<lparr>tmp_cur_size := (tmp_cur_start g + tmp_cur_size g) - (ut_start u + ut_size u),
            tmp_cur_start := ut_start u + ut_size u,
            first_area := False\<rparr>)"

fun gap_loop :: "bool \<Rightarrow> untreatedpart list \<Rightarrow> gap_state \<Rightarrow> gap_state" where
  "gap_loop use_copy [] g = g"
| "gap_loop use_copy (u # us) g = gap_loop use_copy us (gap_step use_copy g u)"

text \<open>The state of the planner: its output parameters, \<open>upload_list\<close> and the iterators.\<close>

record plan_state =
  dup_untreated :: "untreatedpart list"
  ps_upload_list :: "filepart list"
  uploaded_iter :: nat
  to_upload_list :: "mp_part list"
  to_copy_list :: "mp_part list"
  to_download_list :: "mp_part list"
  cancel_upload_list :: "filepart list"
  wait_upload_complete :: bool

text \<open>
  The last part of the loop body: the lists for the current area, from
  \<open>cur_untreated_list\<close> and \<open>overlap_uploaded_iter\<close>.
\<close>

definition plan_area ::
  "bool \<Rightarrow> off_t \<Rightarrow> off_t \<Rightarrow> int \<Rightarrow> untreatedpart list \<Rightarrow> nat option \<Rightarrow> plan_state
     \<Rightarrow> plan_state" where
  "plan_area use_copy cur_start cur_size part_num cur_untreated_list overlap_uploaded_iter ps =
     (if cur_untreated_list = [] then
        (case overlap_uploaded_iter of
           Some i \<Rightarrow> ps
         | None \<Rightarrow>
             if use_copy then
               ps\<lparr>to_copy_list := to_copy_list ps @
                    [\<lparr>mp_start = cur_start, mp_size = cur_size, mp_part_num = part_num\<rparr>]\<rparr>
             else
               ps\<lparr>to_download_list := to_download_list ps @
                    [\<lparr>mp_start = cur_start, mp_size = cur_size, mp_part_num = 0\<rparr>],
                  to_upload_list := to_upload_list ps @
                    [\<lparr>mp_start = cur_start, mp_size = cur_size, mp_part_num = part_num\<rparr>]\<rparr>)
      else
        (case overlap_uploaded_iter of
           Some i \<Rightarrow>
             ps\<lparr>wait_upload_complete :=
                  (if \<not> uploaded (ps_upload_list ps ! i) then True
                   else wait_upload_complete ps),
                cancel_upload_list := cancel_upload_list ps @ [ps_upload_list ps ! i],
                ps_upload_list := take i (ps_upload_list ps) @ drop (Suc i) (ps_upload_list ps),
                uploaded_iter := i,
                to_upload_list := to_upload_list ps @
                  [\<lparr>mp_start = cur_start, mp_size = cur_size, mp_part_num = part_num\<rparr>]\<rparr>
         | None \<Rightarrow>
             (let g = gap_loop use_copy cur_untreated_list
                        \<lparr>tmp_cur_start = cur_start, tmp_cur_size = cur_size,
                         changed_start = cur_start, changed_size = cur_size,
                         first_area = True,
                         gs_to_copy_list = to_copy_list ps,
                         gs_to_download_list = to_download_list ps\<rparr>
              in ps\<lparr>to_copy_list := gs_to_copy_list g,
                    to_download_list :=
                      (if 0 < tmp_cur_size g then
                         gs_to_download_list g @
                           [\<lparr>mp_start = tmp_cur_start g, mp_size = tmp_cur_size g,
                             mp_part_num = 0\<rparr>]
                       else gs_to_download_list g),
                    to_upload_list := to_upload_list ps @
                      [\<lparr>mp_start = changed_start g, mp_size = changed_size g,
                        mp_part_num = part_num\<rparr>]\<rparr>)))"

text \<open>
  One pass of the outer loop at \<open>cur_start\<close>; \<open>None\<close> is the \<open>return false\<close>.
\<close>

definition area_size :: "off_t \<Rightarrow> off_t \<Rightarrow> off_t \<Rightarrow> off_t" where
  "area_size max_mp_size file_size cur_start =
     (if cur_start + max_mp_size \<le> file_size then max_mp_size else file_size - cur_start)"

definition plan_step ::
  "off_t \<Rightarrow> off_t \<Rightarrow> bool \<Rightarrow> off_t \<Rightarrow> plan_state \<Rightarrow> plan_state option" where
  "plan_step max_mp_size file_size use_copy cur_start ps =
     (let cur_size = area_size max_mp_size file_size cur_start;
          (cur_untreated_list, dup) =
             extract_cur_untreated cur_start cur_size (dup_untreated ps) []
      in case scan_uploaded (ps_upload_list ps) cur_start cur_size (uploaded_iter ps) None of
           None \<Rightarrow> None
         | Some (it, overlap_uploaded_iter) \<Rightarrow>
             Some (plan_area use_copy cur_start cur_size (int_cast (cur_start div max_mp_size + 1))
                     cur_untreated_list overlap_uploaded_iter
                     (ps\<lparr>dup_untreated := dup, uploaded_iter := it\<rparr>)))"

text \<open>
  The outer loop.  The result is \<open>None\<close> where the code has no result: with
  \<open>max_mp_size \<le> 0\<close> the loop divides by zero or never ends.  Otherwise it is the
  returned \<open>bool\<close> and the state of the output parameters at the return.
\<close>

function plan_loop ::
  "off_t \<Rightarrow> off_t \<Rightarrow> bool \<Rightarrow> off_t \<Rightarrow> plan_state \<Rightarrow> (bool \<times> plan_state) option" where
  "plan_loop max_mp_size file_size use_copy cur_start ps =
     (if cur_start < file_size then
        (if max_mp_size \<le> 0 then None
         else (case plan_step max_mp_size file_size use_copy cur_start ps of
                 None \<Rightarrow> Some (False, ps)
               | Some ps' \<Rightarrow>
                   plan_loop max_mp_size file_size use_copy
                     (cur_start + area_size max_mp_size file_size cur_start) ps'))
      else Some (True, ps))"
  by pat_completeness auto
termination
  by (relation "measure (\<lambda>(max_mp_size, file_size, use_copy, cur_start, ps).
        nat (file_size - cur_start))") (auto simp: area_size_def)

definition ExtractUploadPartsFromAllArea ::
  "untreatedpart list \<Rightarrow> off_t \<Rightarrow> off_t \<Rightarrow> bool \<Rightarrow> filepart list
     \<Rightarrow> (bool \<times> plan_state) option" where
  "ExtractUploadPartsFromAllArea untreated_list max_mp_size file_size use_copy ul =
     plan_loop max_mp_size file_size use_copy 0
       \<lparr>dup_untreated = untreated_list, ps_upload_list = ul, uploaded_iter = 0,
        to_upload_list = [], to_copy_list = [], to_download_list = [],
        cancel_upload_list = [], wait_upload_complete = False\<rparr>"

subsection \<open>ExtractUploadPartsFromUntreatedArea\<close>

text \<open>
  The loop over \<open>upload_list\<close>: a part that overlaps the aligned area is moved to
  \<open>cancel_upload_list\<close>, and the area grows to the end of a part that reaches beyond
  it.  The arguments are the area, the parts not yet visited, and the parts kept and
  cancelled so far; the result is the new \<open>upload_list\<close>, \<open>cancel_upload_list\<close> and
  \<open>aligned_size\<close>.
\<close>

fun cancel_overlapped ::
  "off_t \<Rightarrow> off_t \<Rightarrow> filepart list \<Rightarrow> filepart list \<Rightarrow> filepart list
     \<Rightarrow> filepart list \<times> filepart list \<times> off_t" where
  "cancel_overlapped aligned_start aligned_size [] kept cancel = (kept, cancel, aligned_size)"
| "cancel_overlapped aligned_start aligned_size (p # ul) kept cancel =
     (if startpos p + fp_size p - 1 < aligned_start
         \<or> aligned_start + aligned_size - 1 < startpos p then
        cancel_overlapped aligned_start aligned_size ul (kept @ [p]) cancel
      else
        cancel_overlapped aligned_start
          (if aligned_start + aligned_size - 1 < startpos p + fp_size p - 1
           then aligned_size + ((startpos p + fp_size p) - (aligned_start + aligned_size))
           else aligned_size)
          ul kept (cancel @ [p]))"

text \<open>
  The final \<open>while\<close> loop, one part of the maximum size per pass.  It is reached with
  \<open>0 < max_mp_size\<close> only; the test is part of the loop condition here so that the
  recursion is total.
\<close>

function upload_areas :: "off_t \<Rightarrow> off_t \<Rightarrow> off_t \<Rightarrow> mp_part list \<Rightarrow> mp_part list" where
  "upload_areas max_mp_size aligned_start aligned_size to_upload =
     (if 0 < max_mp_size \<and> max_mp_size \<le> aligned_size then
        upload_areas max_mp_size (aligned_start + max_mp_size) (aligned_size - max_mp_size)
          (to_upload @
             [\<lparr>mp_start = aligned_start, mp_size = max_mp_size,
               mp_part_num = int_cast (aligned_start div max_mp_size + 1)\<rparr>])
      else to_upload)"
  by pat_completeness auto
termination
  by (relation "measure (\<lambda>(max_mp_size, aligned_start, aligned_size, to_upload).
        nat aligned_size)") auto

text \<open>
  The function takes the two output lists as they are passed in (they stay as they are
  when the parameters are refused) and \<open>upload_list\<close>, and returns its \<open>bool\<close>, the
  two lists and \<open>upload_list\<close>.  There is no result (\<open>None\<close>) for
  \<open>max_mp_size \<le> 0\<close>, where the code divides by zero or loops for ever.
\<close>

definition ExtractUploadPartsFromUntreatedArea ::
  "off_t \<Rightarrow> off_t \<Rightarrow> mp_part list \<Rightarrow> filepart list \<Rightarrow> off_t \<Rightarrow> filepart list
     \<Rightarrow> (bool \<times> mp_part list \<times> filepart list \<times> filepart list) option" where
  "ExtractUploadPartsFromUntreatedArea untreated_start untreated_size to_upload cancel
       max_mp_size ul =
     (if untreated_start < 0 \<or> untreated_size \<le> 0 then Some (False, to_upload, cancel, ul)
      else if max_mp_size \<le> 0 then None
      else
        let aligned_start = (untreated_start div max_mp_size) * max_mp_size;
            aligned_size = untreated_size + (untreated_start - aligned_start)
        in if aligned_size < max_mp_size then Some (True, [], [], ul)
           else
             (case cancel_overlapped aligned_start aligned_size ul [] [] of
                (kept, cancelled, aligned_size2) \<Rightarrow>
                  Some (True, upload_areas max_mp_size aligned_start aligned_size2 [],
                        cancelled, kept)))"

subsection \<open>UploadBoundaryLastUntreatedArea and the functions it calls\<close>

text \<open>
  What the function obtains from outside the sources is collected in a record: whether
  \<open>path\<close> is a string, the answer of \<open>FdEntity::GetLastUpdateUntreatedPart\<close>
  (\<open>None\<close> for a null \<open>pfdent\<close>), \<open>S3fsCurl::GetMultipartSize()\<close>, the result and
  upload id of \<open>pre_multipart_upload_request\<close>, the results of \<open>dup\<close>, \<open>lseek\<close>
  and \<open>fstat\<close>, and the result of \<open>multipart_upload_part_request\<close> for a part.
  The requests run on other threads; what those threads do later (the etag, \<open>last_result\<close>,
  the semaphore) is not part of these functions.
\<close>

record upload_env =
  env_path :: bool
  env_pfdent :: "(bool \<times> off_t \<times> off_t) option"
  env_multipart_size :: off_t
  env_pre_request :: "int \<times> string"
  env_dup :: int
  env_lseek :: int
  env_fstat :: int
  env_part_request :: "mp_part \<Rightarrow> int"

definition ResetUploadInfo :: "PseudoFdInfo \<Rightarrow> PseudoFdInfo" where
  "ResetUploadInfo st = st\<lparr>upload_id := [], upload_list := [], instruct_count := 0, last_result := 0\<rparr>"

text \<open>\<open>RowInitialUploadInfo\<close> with \<open>is_cancel_mp = false\<close>, which always returns true.\<close>

definition RowInitialUploadInfo :: "string \<Rightarrow> PseudoFdInfo \<Rightarrow> PseudoFdInfo" where
  "RowInitialUploadInfo ident st = (ResetUploadInfo st)\<lparr>upload_id := ident\<rparr>"

definition PreMultipartUploadRequest :: "upload_env \<Rightarrow> PseudoFdInfo \<Rightarrow> int \<times> PseudoFdInfo" where
  "PreMultipartUploadRequest env st =
     (case env_pre_request env of
        (result, new_upload_id) \<Rightarrow>
          if result \<noteq> 0 then (result, st) else (0, RowInitialUploadInfo new_upload_id st))"

definition OpenUploadFd :: "upload_env \<Rightarrow> PseudoFdInfo \<Rightarrow> bool \<times> PseudoFdInfo" where
  "OpenUploadFd env st =
     (if upload_fd st \<noteq> - 1 then (True, st)
      else if physical_fd st = - 1 then (False, st)
      else if env_dup env = - 1 then (False, st)
      else if env_lseek env \<noteq> 0 then (False, st)
      else if env_fstat env = - 1 then (False, st)
      else (True, st\<lparr>upload_fd := env_dup env\<rparr>))"

definition GetUploadInfo :: "PseudoFdInfo \<Rightarrow> (string \<times> int) option" where
  "GetUploadInfo st = (if \<not> IsUploadingHasLock st then None else Some (upload_id st, upload_fd st))"

text \<open>
  \<open>InsertUploadPart\<close> is always called with a pointer for the etag.  \<open>std::sort\<close> may
  leave parts of equal part number in any order; the model keeps their order.
\<close>

definition InsertUploadPart ::
  "off_t \<Rightarrow> off_t \<Rightarrow> int \<Rightarrow> bool \<Rightarrow> PseudoFdInfo \<Rightarrow> bool \<times> PseudoFdInfo" where
  "InsertUploadPart start sz part_num is_cp st =
     (if \<not> IsUploadingHasLock st then (False, st)
      else if start < 0 \<or> sz \<le> 0 \<or> part_num < 0 then (False, st)
      else
        let petag_entity = \<lparr>ep_etag = None, ep_part_num = part_num\<rparr>
        in (True,
            st\<lparr>etag_entities := etag_entities st @ [petag_entity],
               upload_list :=
                 sort_key get_part_number
                   (upload_list st @
                      [\<lparr>uploaded = False, fd = physical_fd st, startpos = start, fp_size = sz,
                        is_copy = is_cp, petag = Some petag_entity\<rparr>])\<rparr>))"

text \<open>
  The loop of \<open>ParallelMultipartUpload\<close>; the last argument and result is the list of
  the parts for which a request was set up.
\<close>

fun ParallelMultipartUpload_loop ::
  "upload_env \<Rightarrow> bool \<Rightarrow> mp_part list \<Rightarrow> PseudoFdInfo \<Rightarrow> mp_part list
     \<Rightarrow> bool \<times> PseudoFdInfo \<times> mp_part list" where
  "ParallelMultipartUpload_loop env is_cp [] st requested = (True, st, requested)"
| "ParallelMultipartUpload_loop env is_cp (part # mplist) st requested =
     (case InsertUploadPart (mp_start part) (mp_size part) (mp_part_num part) is_cp st of
        (False, st1) \<Rightarrow> (False, st1, requested)
      | (True, st1) \<Rightarrow>
          if env_part_request env part \<noteq> 0 then (False, st1, requested)
          else ParallelMultipartUpload_loop env is_cp mplist
                 (st1\<lparr>instruct_count := instruct_count st1 + 1\<rparr>) (requested @ [part]))"

definition ParallelMultipartUpload ::
  "upload_env \<Rightarrow> mp_part list \<Rightarrow> bool \<Rightarrow> PseudoFdInfo \<Rightarrow> bool \<times> PseudoFdInfo \<times> mp_part list" where
  "ParallelMultipartUpload env mplist is_cp st =
     (if mplist = [] then (True, st, [])
      else
        (case OpenUploadFd env st of
           (False, st1) \<Rightarrow> (False, st1, [])
         | (True, st1) \<Rightarrow>
             (case GetUploadInfo st1 of
                None \<Rightarrow> (False, st1, [])
              | Some (tmp_upload_id, tmp_upload_fd) \<Rightarrow>
                  ParallelMultipartUpload_loop env is_cp mplist st1 [])))"

text \<open>
  \<open>UploadBoundaryLastUntreatedArea\<close> returns its \<open>ssize_t\<close>, the object after the
  call, the parts for which an upload request was set up, and the arguments of its call
  of \<open>FdEntity::ReplaceLastUpdateUntreatedPart\<close> if it gets that far.  As above there
  is no result for a multipart size that is not positive.
\<close>

definition UploadBoundaryLastUntreatedArea ::
  "upload_env \<Rightarrow> PseudoFdInfo
     \<Rightarrow> (int \<times> PseudoFdInfo \<times> mp_part list \<times> (off_t \<times> off_t \<times> off_t \<times> off_t) option) option" where
  "UploadBoundaryLastUntreatedArea env st =
     (if \<not> env_path env \<or> physical_fd st = - 1 \<or> pseudo_fd st = - 1 \<or> env_pfdent env = None
      then Some (- EBADF, st, [], None)
      else
        (case the (env_pfdent env) of
           (found, last_untreated_start, last_untreated_size) \<Rightarrow>
             if \<not> found \<or> last_untreated_start < 0 \<or> last_untreated_size \<le> 0
             then Some (0, st, [], None)
             else if env_multipart_size env \<le> 0 then None
             else
               let max_mp_size = env_multipart_size env;
                   aligned_start =
                     ((last_untreated_start div max_mp_size)
                        + (if 0 < last_untreated_start mod max_mp_size then 1 else 0))
                     * max_mp_size
               in if last_untreated_start + last_untreated_size \<le> aligned_start
                  then Some (0, st, [], None)
                  else
                    let aligned_size =
                          (((last_untreated_start + last_untreated_size) - aligned_start)
                             div max_mp_size) * max_mp_size
                    in if aligned_size = 0 then Some (0, st, [], None)
                       else
                         let front_rem_start = last_untreated_start;
                             front_rem_size = aligned_start - last_untreated_start
                         in (case ExtractUploadPartsFromUntreatedArea aligned_start aligned_size
                                    [] [] max_mp_size (upload_list st) of
                               None \<Rightarrow> None
                             | Some (False, to_upload, cancelled, ul) \<Rightarrow>
                                 Some (- EIO, st\<lparr>upload_list := ul\<rparr>, [], None)
                             | Some (True, to_upload, cancelled, ul) \<Rightarrow>
                                 let st1 = st\<lparr>upload_list := ul\<rparr>
                                 in if to_upload = [] then Some (0, st1, [], None)
                                    else
                                      (case (if \<not> IsUploadingHasLock st1
                                             then PreMultipartUploadRequest env st1
                                             else (0, st1)) of
                                         (result, st2) \<Rightarrow>
                                           if result \<noteq> 0 then Some (result, st2, [], None)
                                           else
                                             (case ParallelMultipartUpload env to_upload False st2 of
                                                (False, st3, requested) \<Rightarrow>
                                                  Some (- EIO, st3, requested, None)
                                              | (True, st3, requested) \<Rightarrow>
                                                  let behind_rem_start = aligned_start + aligned_size;
                                                      behind_rem_size =
                                                        (last_untreated_start + last_untreated_size)
                                                          - behind_rem_start
                                                  in Some (0, st3, requested,
                                                       Some (front_rem_start, front_rem_size,
                                                             behind_rem_start, behind_rem_size)))))))"


subsection \<open>WaitAllThreadsExit and CancelAllThreads\<close>







text \<open>
  A schedule is a list of events: the waiting thread takes its next step (nothing
  happens if it cannot move), a worker ends with a result, or a thread in
  \<open>CancelAllThreads\<close> runs the first block of that function.  \<open>run_schedule\<close> applies
  the events in order.
\<close>

datatype event = Waiter | Worker_exit int | Cancel_mark



text \<open>
  The first non-zero result with which a worker ends in a schedule, 0 if there is none;
  the number of workers that end in a schedule; and the invariant of a schedule that
  starts with \<open>instruct_count = n\<close>: \<open>q\<close> is the number of tokens the semaphore has
  received, those it held at the start included.
\<close>

fun first_error :: "event list \<Rightarrow> int" where
  "first_error [] = 0"
| "first_error (Worker_exit result # es) = (if result \<noteq> 0 then result else first_error es)"
| "first_error (e # es) = first_error es"




section \<open>Notions used to state the properties of the planner\<close>

text \<open>
  \<open>cover_count x rs\<close> is the number of byte ranges \<open>(start, size)\<close> of \<open>rs\<close> that
  contain the offset \<open>x\<close>; \<open>covers_once c rs\<close> says that every offset of \<open>[0, c)\<close>
  lies in exactly one range and every other offset in none.  \<open>tiles a rs b\<close> says that
  the ranges, in the order of the list, are non-empty and laid end to end from \<open>a\<close> to
  \<open>b\<close>.
\<close>

definition cover_count :: "off_t \<Rightarrow> (off_t \<times> off_t) list \<Rightarrow> nat" where
  "cover_count x rs = length (filter (\<lambda>(s, z). s \<le> x \<and> x < s + z) rs)"

definition mp_range :: "mp_part \<Rightarrow> off_t \<times> off_t" where
  "mp_range e = (mp_start e, mp_size e)"

definition fp_range :: "filepart \<Rightarrow> off_t \<times> off_t" where
  "fp_range p = (startpos p, fp_size p)"

text \<open>
  The upload list the planner expects (the notes in its source say that an uploaded area
  is aligned with the boundary of the maximum part size).  In \<open>parts_in_areas\<close> the
  list is in the order of the offsets and every part starts at the start of an area of
  the file and lies in that area; in \<open>slab_aligned\<close> every part is the whole area and
  has the part number of that area.
\<close>

definition part_in_area :: "off_t \<Rightarrow> off_t \<Rightarrow> filepart \<Rightarrow> bool" where
  "part_in_area max_mp_size file_size p \<longleftrightarrow>
     0 \<le> startpos p \<and> startpos p mod max_mp_size = 0 \<and> startpos p < file_size \<and>
     0 < fp_size p \<and> fp_size p \<le> area_size max_mp_size file_size (startpos p)"

definition parts_in_areas :: "off_t \<Rightarrow> off_t \<Rightarrow> filepart list \<Rightarrow> bool" where
  "parts_in_areas max_mp_size file_size ul \<longleftrightarrow>
     sorted_wrt (\<lambda>a b. startpos a < startpos b) ul \<and>
     list_all (part_in_area max_mp_size file_size) ul"

definition slab_part :: "off_t \<Rightarrow> off_t \<Rightarrow> filepart \<Rightarrow> bool" where
  "slab_part max_mp_size file_size p \<longleftrightarrow>
     0 \<le> startpos p \<and> startpos p mod max_mp_size = 0 \<and> startpos p < file_size \<and>
     fp_size p = area_size max_mp_size file_size (startpos p) \<and>
     get_part_number p = startpos p div max_mp_size + 1"

definition slab_aligned :: "off_t \<Rightarrow> off_t \<Rightarrow> filepart list \<Rightarrow> bool" where
  "slab_aligned max_mp_size file_size ul \<longleftrightarrow>
     sorted_wrt (\<lambda>a b. startpos a < startpos b) ul \<and>
     list_all (slab_part max_mp_size file_size) ul"

text \<open>
  The state in which the loop over the untreated areas of one area starts, and the test
  under which that loop adds the gap in front of the first untreated area to the last
  copy part.
\<close>

definition gap_init :: "off_t \<Rightarrow> off_t \<Rightarrow> mp_part list \<Rightarrow> mp_part list \<Rightarrow> gap_state" where
  "gap_init cur_start cur_size cl dl =
     \<lparr>tmp_cur_start = cur_start, tmp_cur_size = cur_size,
      changed_start = cur_start, changed_size = cur_size, first_area = True,
      gs_to_copy_list = cl, gs_to_download_list = dl\<rparr>"

definition unified :: "bool \<Rightarrow> off_t \<Rightarrow> off_t \<Rightarrow> mp_part list \<Rightarrow> untreatedpart list \<Rightarrow> bool" where
  "unified use_copy cur_start cur_size cl us \<longleftrightarrow>
     us \<noteq> [] \<and> cur_start < ut_start (hd us) \<and> use_copy \<and> cl \<noteq> [] \<and>
     mp_start (last cl) + mp_size (last cl) = cur_start \<and>
     mp_size (last cl) + (ut_start (hd us) - cur_start) \<le> FIVE_GB \<and>
     (cur_start + cur_size) - ut_start (hd us) \<ge> MIN_MULTIPART_SIZE"

text \<open>
  In a file of at most \<open>2^31 - 1\<close> areas, where the cast to \<open>int\<close> changes no part
  number, a planned part carries the number of the area in which it starts
  (\<open>numbered\<close>).  \<open>area_inv\<close> is the invariant of the outer loop at
  \<open>cur_start = c\<close> for such a file: the planned parts and the uploaded
  parts in front of \<open>uploaded_iter\<close> cover \<open>[0, c)\<close> once, and the uploaded parts
  from \<open>uploaded_iter\<close> on start at or after \<open>c\<close>.
\<close>

definition covers_once :: "off_t \<Rightarrow> (off_t \<times> off_t) list \<Rightarrow> bool" where
  "covers_once c rs \<longleftrightarrow> (\<forall>x. cover_count x rs = (if 0 \<le> x \<and> x < c then 1 else 0))"

definition numbered :: "off_t \<Rightarrow> mp_part \<Rightarrow> bool" where
  "numbered m e \<longleftrightarrow> 0 < mp_size e \<and> 0 \<le> mp_start e \<and> mp_start e div m + 1 = mp_part_num e"

definition area_inv ::
  "off_t \<Rightarrow> off_t \<Rightarrow> off_t \<Rightarrow> filepart list \<Rightarrow> nat \<Rightarrow> mp_part list \<Rightarrow> mp_part list \<Rightarrow> bool" where
  "area_inv m fs c ul it tu tc \<longleftrightarrow>
     0 \<le> c \<and> c \<le> fs \<and> (c mod m = 0 \<or> c = fs) \<and>
     slab_aligned m fs ul \<and> it \<le> length ul \<and>
     (\<forall>j. it \<le> j \<and> j < length ul \<longrightarrow> c \<le> startpos (ul ! j)) \<and>
     covers_once c (map mp_range tu @ map mp_range tc @ map fp_range (take it ul)) \<and>
     list_all (numbered m) tu \<and> list_all (numbered m) tc \<and>
     distinct (map mp_part_num tu @ map mp_part_num tc)"

definition plan_inv :: "off_t \<Rightarrow> off_t \<Rightarrow> off_t \<Rightarrow> plan_state \<Rightarrow> bool" where
  "plan_inv m fs c ps \<longleftrightarrow>
     area_inv m fs c (ps_upload_list ps) (uploaded_iter ps) (to_upload_list ps) (to_copy_list ps)"

fun tiles :: "off_t \<Rightarrow> (off_t \<times> off_t) list \<Rightarrow> off_t \<Rightarrow> bool" where
  "tiles a [] b \<longleftrightarrow> a = b"
| "tiles a ((s, z) # rs) b \<longleftrightarrow> s = a \<and> 0 < z \<and> tiles (a + z) rs b"

text \<open>
  The parts of a plan with their part numbers: the parts to upload, the parts to copy
  and the parts left in the upload list; and their byte ranges in the order of the part
  numbers.
\<close>

definition mp_entry :: "mp_part \<Rightarrow> int \<times> off_t \<times> off_t" where
  "mp_entry e = (mp_part_num e, mp_start e, mp_size e)"

definition fp_entry :: "filepart \<Rightarrow> int \<times> off_t \<times> off_t" where
  "fp_entry p = (get_part_number p, startpos p, fp_size p)"

definition plan_parts :: "plan_state \<Rightarrow> (int \<times> off_t \<times> off_t) list" where
  "plan_parts ps =
     map mp_entry (to_upload_list ps @ to_copy_list ps) @ map fp_entry (ps_upload_list ps)"

definition in_part_number_order :: "(int \<times> off_t \<times> off_t) list \<Rightarrow> (off_t \<times> off_t) list" where
  "in_part_number_order L = map snd (sort_key fst L)"

text \<open>
  The next multiple of the part size at or after an offset; the position at which
  \<open>AppendUploadPart\<close> expects the next part.
\<close>

definition ceil_align :: "off_t \<Rightarrow> off_t \<Rightarrow> off_t" where
  "ceil_align x m = ((x + m - 1) div m) * m"

definition next_start_pos :: "filepart list \<Rightarrow> off_t" where
  "next_start_pos ul = (if ul = [] then 0 else startpos (last ul) + fp_size (last ul))"





text \<open>
  The untreated list as the page list hands it over: areas that are not empty, in the
  order of their offsets, none reaching into the next.  \<open>untreated_at x us\<close> says that
  the byte at offset \<open>x\<close> lies in an area of \<open>us\<close>.
\<close>

definition untreated_sorted :: "untreatedpart list \<Rightarrow> bool" where
  "untreated_sorted us \<longleftrightarrow>
     sorted_wrt (\<lambda>a b. ut_start a + ut_size a \<le> ut_start b) us \<and>
     list_all (\<lambda>u. 0 < ut_size u) us"

definition untreated_at :: "off_t \<Rightarrow> untreatedpart list \<Rightarrow> bool" where
  "untreated_at x us \<longleftrightarrow> (\<exists>u \<in> set us. ut_start u \<le> x \<and> x < ut_start u + ut_size u)"

text \<open>
  What the planner has to do with an uploaded part whose area holds untreated data, and
  the invariant of the outer loop that says it has done so for the parts in front of
  \<open>cur_start = c\<close>.  \<open>ul0\<close> and \<open>ut0\<close> are the upload list and the untreated list at
  the call.
\<close>

definition part_overlapped ::
  "off_t \<Rightarrow> off_t \<Rightarrow> untreatedpart list \<Rightarrow> filepart \<Rightarrow> bool" where
  "part_overlapped m fs ut0 p \<longleftrightarrow>
     (\<exists>x. startpos p \<le> x \<and> x < startpos p + area_size m fs (startpos p)
          \<and> untreated_at x ut0)"

definition cancelled :: "off_t \<Rightarrow> off_t \<Rightarrow> filepart \<Rightarrow> plan_state \<Rightarrow> bool" where
  "cancelled m fs p ps \<longleftrightarrow>
     p \<notin> set (ps_upload_list ps) \<and> p \<in> set (cancel_upload_list ps) \<and>
     \<lparr>mp_start = startpos p, mp_size = area_size m fs (startpos p),
      mp_part_num = int_cast (startpos p div m + 1)\<rparr> \<in> set (to_upload_list ps) \<and>
     (uploaded p \<or> wait_upload_complete ps)"

definition iter_inv :: "off_t \<Rightarrow> off_t \<Rightarrow> off_t \<Rightarrow> plan_state \<Rightarrow> bool" where
  "iter_inv m fs c ps \<longleftrightarrow>
     0 \<le> c \<and> c \<le> fs \<and> (c mod m = 0 \<or> c = fs) \<and>
     parts_in_areas m fs (ps_upload_list ps) \<and>
     uploaded_iter ps \<le> length (ps_upload_list ps) \<and>
     (\<forall>j. uploaded_iter ps \<le> j \<and> j < length (ps_upload_list ps)
          \<longrightarrow> c \<le> startpos (ps_upload_list ps ! j))"

definition cancel_inv ::
  "off_t \<Rightarrow> off_t \<Rightarrow> filepart list \<Rightarrow> untreatedpart list \<Rightarrow> off_t \<Rightarrow> plan_state \<Rightarrow> bool" where
  "cancel_inv m fs ul0 ut0 c ps \<longleftrightarrow>
     untreated_sorted (dup_untreated ps) \<and>
     (\<forall>x. c \<le> x \<longrightarrow> untreated_at x ut0 \<longrightarrow> untreated_at x (dup_untreated ps)) \<and>
     (\<forall>p \<in> set ul0. c \<le> startpos p
         \<longrightarrow> p \<in> set (drop (uploaded_iter ps) (ps_upload_list ps))) \<and>
     (\<forall>p \<in> set ul0. startpos p < c \<longrightarrow> part_overlapped m fs ut0 p \<longrightarrow> cancelled m fs p ps) \<and>
     (wait_upload_complete ps \<longleftrightarrow> (\<exists>p \<in> set (cancel_upload_list ps). \<not> uploaded p)) \<and>
     set (ps_upload_list ps) \<union> set (cancel_upload_list ps) = set ul0"


inductive plan_reach ::
  "off_t \<Rightarrow> off_t \<Rightarrow> bool \<Rightarrow> plan_state \<Rightarrow> off_t \<Rightarrow> plan_state \<Rightarrow> bool"
  for m :: off_t and fs :: off_t and uc :: bool and ps0 :: plan_state where
  at_start: "plan_reach m fs uc ps0 0 ps0"
| next_pass: "plan_reach m fs uc ps0 c ps \<Longrightarrow> c < fs \<Longrightarrow> plan_step m fs uc c ps = Some ps'
     \<Longrightarrow> plan_reach m fs uc ps0 (c + area_size m fs c) ps'"


section \<open>Properties of the URL codec\<close>

lemma hex_digit_value_alphabet:
  assumes "n < 16"
  shows "hex_digit_value (''0123456789ABCDEF'' ! n) = n"
proof -
  have "\<forall>k \<in> set [0..<16]. hex_digit_value (''0123456789ABCDEF'' ! k) = k"
    by (simp add: upt_rec hex_digit_value_def)
  with assms show ?thesis by simp
qed

lemma urlDecode_loop_result: "urlDecode_loop s result = result @ urlDecode_loop s []"
proof (induction s arbitrary: result rule: length_induct)
  case (1 s)
  have ih: "urlDecode_loop u r = r @ urlDecode_loop u []" if "length u < length s" for u r
    using "1.IH" that by blast
  show ?case
  proof (cases s)
    case Nil
    then show ?thesis by simp
  next
    case (Cons c t)
    show ?thesis
    proof (cases "c = CHR ''%''")
      case False
      have "urlDecode_loop t (result @ [c]) = (result @ [c]) @ urlDecode_loop t []"
        by (rule ih) (simp add: Cons)
      moreover have "urlDecode_loop t [c] = [c] @ urlDecode_loop t []"
        by (rule ih) (simp add: Cons)
      ultimately show ?thesis using Cons False by simp
    next
      case True
      show ?thesis
      proof (cases t)
        case Nil
        then show ?thesis using Cons True by simp
      next
        case c1: (Cons h t1)
        show ?thesis
        proof (cases t1)
          case Nil
          then show ?thesis using Cons True c1 by simp
        next
          case c2: (Cons l rest)
          let ?b = "char_of (hex_digit_value h * 16 + hex_digit_value l)"
          have "urlDecode_loop rest (result @ [?b]) = (result @ [?b]) @ urlDecode_loop rest []"
            by (rule ih) (simp add: Cons c1 c2)
          moreover have "urlDecode_loop rest [?b] = [?b] @ urlDecode_loop rest []"
            by (rule ih) (simp add: Cons c1 c2)
          ultimately show ?thesis using Cons True c1 c2 by simp
        qed
      qed
    qed
  qed
qed

lemma urlDecode_Nil: "urlDecode [] = []"
  by (simp add: urlDecode_def)

lemma urlDecode_plain: "c \<noteq> CHR ''%'' \<Longrightarrow> urlDecode (c # s) = c # urlDecode s"
  using urlDecode_loop_result [of s "[c]"] by (simp add: urlDecode_def)

lemma urlDecode_escape:
  "urlDecode (CHR ''%'' # h # l # s) =
     char_of (hex_digit_value h * 16 + hex_digit_value l) # urlDecode s"
  using urlDecode_loop_result [of s "[char_of (hex_digit_value h * 16 + hex_digit_value l)]"]
  by (simp add: urlDecode_def)

lemma url_unreserved_not_percent:
  "CHR ''%'' \<notin> set except_chars \<Longrightarrow> url_unreserved except_chars c \<Longrightarrow> c \<noteq> CHR ''%''"
  by (auto simp: url_unreserved_def strchr_found_def)

lemma s3fs_hex_upper_byte:
  "s3fs_hex_upper [c] = [''0123456789ABCDEF'' ! (of_char c div 16), ''0123456789ABCDEF'' ! (of_char c mod 16)]"
  by (simp add: s3fs_hex_upper_def s3fs_hex_def)

lemma hex_pair_value:
  "char_of (hex_digit_value (''0123456789ABCDEF'' ! (of_char c div 16)) * 16
      + hex_digit_value (''0123456789ABCDEF'' ! (of_char c mod 16))) = c"
proof -
  have lt: "(of_char c :: nat) < 256" by (rule nat_of_char_less_256)
  then have d: "(of_char c :: nat) div 16 < 16" by (intro less_mult_imp_div_less) simp
  have m: "(of_char c :: nat) mod 16 < 16" by simp
  show ?thesis
    by (simp only: hex_digit_value_alphabet [OF d] hex_digit_value_alphabet [OF m]) simp
qed

lemma urlDecode_rawUrlEncode:
  assumes "CHR ''%'' \<notin> set except_chars"
  shows "urlDecode (rawUrlEncode b except_chars) = b"
proof (induction b)
  case Nil
  show ?case by (simp add: urlDecode_Nil)
next
  case (Cons c b)
  show ?case
  proof (cases "url_unreserved except_chars c")
    case True
    then have "c \<noteq> CHR ''%''" using assms by (rule url_unreserved_not_percent [rotated])
    then show ?thesis using True Cons.IH by (simp add: urlDecode_plain)
  next
    case False
    then show ?thesis using Cons.IH
      by (simp only: rawUrlEncode.simps if_False s3fs_hex_upper_byte append_Cons append_Nil
            urlDecode_escape hex_pair_value)
  qed
qed

lemma urlDecode_short: "urlDecode [CHR ''%''] = [] \<and> urlDecode [CHR ''%'', h] = []"
  by (simp add: urlDecode_def)

lemma urlDecode_plain_prefix:
  "CHR ''%'' \<notin> set p \<Longrightarrow> urlDecode (p @ s) = p @ urlDecode s"
  by (induction p) (simp_all add: urlDecode_plain [OF not_sym])

lemma hex_digit_value_other:
  assumes "\<not> is_hex_digit c"
  shows "hex_digit_value c = 0"
proof -
  have "\<forall>n \<in> set [48..<58] \<union> set [65..<71] \<union> set [97..<103].
                  is_hex_digit (char_of (n::nat))"
    by (simp add: upt_rec is_hex_digit_def char_of_def bit_Suc_0_iff)
  then have digits: "is_hex_digit (char_of n)"
    if "48 \<le> n \<and> n < 58 \<or> 65 \<le> n \<and> n < 71 \<or> 97 \<le> n \<and> n < 103" for n :: nat
    using that unfolding set_upt by auto
  have c: "char_of (of_char c :: nat) = c" by simp
  have "\<not> (48 \<le> (of_char c :: nat) \<and> (of_char c :: nat) < 58
          \<or> 65 \<le> (of_char c :: nat) \<and> (of_char c :: nat) < 71
          \<or> 97 \<le> (of_char c :: nat) \<and> (of_char c :: nat) < 103)"
    using assms digits [of "of_char c"] c by auto
  then show ?thesis by (auto simp: hex_digit_value_def)
qed

text \<open>
  Claim C10.  \<open>urlDecode\<close> has no error result and returns a string for every input
  (its loop is a structural recursion); the equations below give that string for every
  shape of the input.  A character other than the percent sign is copied.  A percent
  sign with two characters \<open>h\<close> and \<open>l\<close> behind it yields the one byte
  \<open>16 * v(h) + v(l)\<close> and decoding goes on behind \<open>l\<close>; a character that is not a
  hexadecimal digit counts as 0 there, so the byte is \<open>v(l)\<close> if \<open>h\<close> is no digit and
  \<open>16 * v(h)\<close> if \<open>l\<close> is none.  A percent sign with fewer than two characters
  behind it yields no byte and ends decoding: the result is what was decoded before it.
\<close>

theorem urlDecode_lenient:
  "urlDecode [] = []
   \<and> (c \<noteq> CHR ''%'' \<longrightarrow> urlDecode (c # s) = c # urlDecode s)
   \<and> urlDecode (CHR ''%'' # h # l # s) =
       char_of (hex_digit_value h * 16 + hex_digit_value l) # urlDecode s
   \<and> (\<not> is_hex_digit h \<longrightarrow>
         urlDecode (CHR ''%'' # h # l # s) = char_of (hex_digit_value l) # urlDecode s)
   \<and> (\<not> is_hex_digit l \<longrightarrow>
         urlDecode (CHR ''%'' # h # l # s) = char_of (hex_digit_value h * 16) # urlDecode s)
   \<and> urlDecode [CHR ''%''] = []
   \<and> urlDecode [CHR ''%'', h] = []
   \<and> (CHR ''%'' \<notin> set p \<and> length t < 2 \<longrightarrow> urlDecode (p @ CHR ''%'' # t) = p)"
proof -
  have tail: "urlDecode (p @ CHR ''%'' # t) = p" if "CHR ''%'' \<notin> set p" "length t < 2"
  proof -
    have "t = [] \<or> (\<exists>x. t = [x])" using that(2) by (cases t) (auto simp: length_Suc_conv)
    then have "urlDecode (CHR ''%'' # t) = []" using urlDecode_short by auto
    then show ?thesis using urlDecode_plain_prefix [OF that(1)] by simp
  qed
  show ?thesis
    using urlDecode_Nil urlDecode_plain [of c s] urlDecode_escape [of h l s]
      hex_digit_value_other [of h] hex_digit_value_other [of l] urlDecode_short [of h] tail
    by simp
qed

theorem urlDecode_lenient_witness:
  "urlDecode ''ab'' = CHR ''a'' # urlDecode ''b''
   \<and> \<not> is_hex_digit (CHR ''z'')
   \<and> urlDecode ''%z4b'' = char_of (hex_digit_value (CHR ''4'')) # urlDecode ''b''
   \<and> urlDecode ''%4zb'' = char_of (hex_digit_value (CHR ''4'') * 16) # urlDecode ''b''
   \<and> urlDecode ''ab%4'' = ''ab''"
proof -
  note a = urlDecode_lenient [of "CHR ''a''" "''b''" "CHR ''z''" "CHR ''4''" "''ab''" "''4''"]
  note b = urlDecode_lenient [of "CHR ''a''" "''b''" "CHR ''4''" "CHR ''z''" "''ab''" "''4''"]
  have z: "\<not> is_hex_digit (CHR ''z'')" by (simp add: is_hex_digit_def)
  have 1: "urlDecode ''ab'' = CHR ''a'' # urlDecode ''b''" using a by simp
  have 2: "urlDecode ''%z4b'' = char_of (hex_digit_value (CHR ''4'')) # urlDecode ''b''"
    using a z by blast
  have 3: "urlDecode ''%4zb'' = char_of (hex_digit_value (CHR ''4'') * 16) # urlDecode ''b''"
    using b z by blast
  have 4: "urlDecode ''ab%4'' = ''ab''" using a by simp
  from 1 z 2 3 4 show ?thesis by blast
qed

text \<open>
  Claim C8, as stated, fails in its first half: decoding and then encoding does not
  give back every ASCII string (a space comes back as \<open>%20\<close>, the escape \<open>%41\<close>
  comes back as \<open>A\<close>).  The second half fails for \<open>urlEncodeQuery\<close>, which leaves the
  percent sign as it is.
\<close>

theorem url_encode_decode_counterexample:
  "urlEncodeGeneral (urlDecode ''a b'') \<noteq> ''a b''
   \<and> urlEncodePath (urlDecode ''a b'') \<noteq> ''a b''
   \<and> urlEncodeQuery (urlDecode ''a b'') \<noteq> ''a b''
   \<and> urlEncodeGeneral (urlDecode ''%41'') \<noteq> ''%41''
   \<and> urlDecode (urlEncodeQuery ''%41'') \<noteq> ''%41''"
  by (simp add: urlEncodeGeneral_def urlEncodePath_def urlEncodeQuery_def urlDecode_def
      encode_general_except_chars_def encode_path_except_chars_def
      encode_query_except_chars_def url_unreserved_def strchr_found_def
      s3fs_hex_upper_def s3fs_hex_def hex_digit_value_def)

text \<open>
  Claim C8, amended.  For every byte string \<open>b\<close>, \<open>urlDecode\<close> after
  \<open>urlEncodeGeneral\<close> or \<open>urlEncodePath\<close> gives \<open>b\<close> back; encoding after decoding
  gives a string back when the string is an output of the same encoder.
\<close>

theorem url_decode_encode_roundtrip:
  "urlDecode (urlEncodeGeneral b) = b
   \<and> urlDecode (urlEncodePath b) = b
   \<and> urlEncodeGeneral (urlDecode (urlEncodeGeneral b)) = urlEncodeGeneral b
   \<and> urlEncodePath (urlDecode (urlEncodePath b)) = urlEncodePath b"
proof -
  have g: "urlDecode (urlEncodeGeneral b) = b"
    unfolding urlEncodeGeneral_def
    by (rule urlDecode_rawUrlEncode) (simp add: encode_general_except_chars_def)
  have p: "urlDecode (urlEncodePath b) = b"
    unfolding urlEncodePath_def
    by (rule urlDecode_rawUrlEncode) (simp add: encode_path_except_chars_def)
  show ?thesis by (simp only: g p)
qed

section \<open>Properties of the carriage-return codec\<close>

lemma find_first_of_Some:
  "find_first_of chars s = Some n \<Longrightarrow>
     n < length s \<and> s ! n \<in> set chars \<and> (\<forall>c \<in> set (take n s). c \<notin> set chars)"
proof (induction s arbitrary: n)
  case Nil
  then show ?case by simp
next
  case (Cons c s)
  show ?case
  proof (cases "c \<in> set chars")
    case True
    then show ?thesis using Cons.prems by simp
  next
    case False
    then obtain m where m: "find_first_of chars s = Some m" "n = Suc m"
      using Cons.prems by auto
    from Cons.IH [OF m(1)] False m(2) show ?thesis by simp
  qed
qed

lemma find_first_of_None:
  "find_first_of chars s = None \<longleftrightarrow> (\<forall>c \<in> set s. c \<notin> set chars)"
  by (induction s) auto

declare cr_encode_loop.simps [simp del]
declare cr_decode_loop.simps [simp del]

lemma cr_encode_loop_None:
  "find_first_of [CHR ''%'', CHR 0x0D] s = None \<Longrightarrow> cr_encode_loop s result = result @ s"
  by (subst cr_encode_loop.simps) simp

lemma cr_encode_loop_Some:
  "find_first_of [CHR ''%'', CHR 0x0D] s = Some n \<Longrightarrow>
     cr_encode_loop s result =
       cr_encode_loop (drop (n + 1) s)
         (result @ take n s @
            (if s ! n = CHR ''%'' then ''%45'' else if s ! n = CHR 0x0D then ''%0D'' else []))"
  by (subst cr_encode_loop.simps) auto

lemma cr_encode_loop_result: "cr_encode_loop s result = result @ cr_encode_loop s []"
proof (induction s arbitrary: result rule: length_induct)
  case (1 s)
  have ih: "cr_encode_loop u r = r @ cr_encode_loop u []" if "length u < length s" for u r
    using "1.IH" that by blast
  show ?case
  proof (cases "find_first_of [CHR ''%'', CHR 0x0D] s")
    case None
    then show ?thesis by (simp add: cr_encode_loop_None)
  next
    case (Some n)
    then have n: "n < length s" by (auto dest: find_first_of_Some)
    let ?code = "if s ! n = CHR ''%'' then ''%45'' else if s ! n = CHR 0x0D then ''%0D'' else []"
    have len: "length (drop (n + 1) s) < length s" using n by simp
    have "cr_encode_loop s result = (result @ take n s @ ?code) @ cr_encode_loop (drop (n + 1) s) []"
      unfolding cr_encode_loop_Some [OF Some] by (rule ih [OF len])
    moreover have "cr_encode_loop s [] = ([] @ take n s @ ?code) @ cr_encode_loop (drop (n + 1) s) []"
      unfolding cr_encode_loop_Some [OF Some] by (rule ih [OF len])
    ultimately show ?thesis by simp
  qed
qed

lemma cr_decode_loop_None:
  "find_first_of [CHR ''%''] s = None \<Longrightarrow> cr_decode_loop s result = result @ s"
  by (subst cr_decode_loop.simps) simp

lemma cr_decode_loop_Some:
  "find_first_of [CHR ''%''] s = Some n \<Longrightarrow>
     cr_decode_loop s result =
       cr_decode_loop (drop (cr_decode_skip (drop n s)) (drop n s))
         (result @ take n s @ [cr_decode_char (drop n s)])"
  by (subst cr_decode_loop.simps) (auto simp: cr_decode_skip_def cr_decode_char_def Let_def)

lemma cr_decode_loop_result: "cr_decode_loop s result = result @ cr_decode_loop s []"
proof (induction s arbitrary: result rule: length_induct)
  case (1 s)
  have ih: "cr_decode_loop u r = r @ cr_decode_loop u []" if "length u < length s" for u r
    using "1.IH" that by blast
  show ?case
  proof (cases "find_first_of [CHR ''%''] s")
    case None
    then show ?thesis by (simp add: cr_decode_loop_None)
  next
    case (Some n)
    then have n: "n < length s" by (auto dest: find_first_of_Some)
    let ?t = "drop (cr_decode_skip (drop n s)) (drop n s)"
    have len: "length ?t < length s" using n by (auto simp: cr_decode_skip_def)
    have "cr_decode_loop s result = (result @ take n s @ [cr_decode_char (drop n s)]) @ cr_decode_loop ?t []"
      unfolding cr_decode_loop_Some [OF Some] by (rule ih [OF len])
    moreover have "cr_decode_loop s [] = ([] @ take n s @ [cr_decode_char (drop n s)]) @ cr_decode_loop ?t []"
      unfolding cr_decode_loop_Some [OF Some] by (rule ih [OF len])
    ultimately show ?thesis by simp
  qed
qed

lemma cr_decode_loop_plain:
  assumes "c \<noteq> CHR ''%''"
  shows "cr_decode_loop (c # s) [] = c # cr_decode_loop s []"
proof (cases "find_first_of [CHR ''%''] s")
  case None
  then have "find_first_of [CHR ''%''] (c # s) = None" using assms by simp
  then show ?thesis using None by (simp add: cr_decode_loop_None)
next
  case (Some m)
  then have S: "find_first_of [CHR ''%''] (c # s) = Some (Suc m)" using assms by simp
  show ?thesis
    unfolding cr_decode_loop_Some [OF S] cr_decode_loop_Some [OF Some]
    by (subst cr_decode_loop_result, subst (2) cr_decode_loop_result) simp
qed

lemma cr_decode_loop_plain_prefix:
  "\<forall>c \<in> set p. c \<noteq> CHR ''%'' \<Longrightarrow> cr_decode_loop (p @ t) [] = p @ cr_decode_loop t []"
  by (induction p) (simp_all add: cr_decode_loop_plain)

lemma cr_decode_loop_45: "cr_decode_loop (''%45'' @ t) [] = CHR ''%'' # cr_decode_loop t []"
proof -
  have S: "find_first_of [CHR ''%''] (''%45'' @ t) = Some 0" by simp
  show ?thesis
    unfolding cr_decode_loop_Some [OF S]
    by (subst cr_decode_loop_result) (simp add: cr_decode_skip_def cr_decode_char_def)
qed

lemma cr_decode_loop_0D: "cr_decode_loop (''%0D'' @ t) [] = CHR 0x0D # cr_decode_loop t []"
proof -
  have S: "find_first_of [CHR ''%''] (''%0D'' @ t) = Some 0" by simp
  show ?thesis
    unfolding cr_decode_loop_Some [OF S]
    by (subst cr_decode_loop_result) (simp add: cr_decode_skip_def cr_decode_char_def)
qed

lemma cr_decode_encode_loop: "cr_decode_loop (cr_encode_loop s []) [] = s"
proof (induction s rule: length_induct)
  case (1 s)
  show ?case
  proof (cases "find_first_of [CHR ''%'', CHR 0x0D] s")
    case None
    then have "\<forall>c \<in> set s. c \<notin> set [CHR ''%'', CHR 0x0D]" by (simp only: find_first_of_None)
    then have "find_first_of [CHR ''%''] s = None" by (simp add: find_first_of_None)
    then show ?thesis using None by (simp add: cr_encode_loop_None cr_decode_loop_None)
  next
    case (Some n)
    from find_first_of_Some [OF Some]
    have n: "n < length s" and sp: "s ! n = CHR ''%'' \<or> s ! n = CHR 0x0D"
      and pre: "\<forall>c \<in> set (take n s). c \<noteq> CHR ''%''" by auto
    let ?rest = "drop (n + 1) s"
    have ih: "cr_decode_loop (cr_encode_loop ?rest []) [] = ?rest"
      using "1.IH" n by simp
    let ?code = "if s ! n = CHR ''%'' then ''%45'' else if s ! n = CHR 0x0D then ''%0D'' else []"
    have enc: "cr_encode_loop s [] = take n s @ ?code @ cr_encode_loop ?rest []"
      unfolding cr_encode_loop_Some [OF Some] by (subst cr_encode_loop_result) simp
    have "cr_decode_loop (?code @ cr_encode_loop ?rest []) [] = s ! n # ?rest"
      using sp ih cr_decode_loop_45 [of "cr_encode_loop ?rest []"] cr_decode_loop_0D [of "cr_encode_loop ?rest []"]
      by auto
    then have "cr_decode_loop (cr_encode_loop s []) [] = take n s @ s ! n # ?rest"
      unfolding enc by (simp only: cr_decode_loop_plain_prefix [OF pre])
    then show ?thesis using n by (simp add: id_take_nth_drop [symmetric])
  qed
qed

text \<open>
  Claim C9, as stated, fails: the string \<open>%\<close> contains neither \<open>%45\<close> nor \<open>%0D\<close>,
  the decoder leaves it as it is, and the encoder turns it into \<open>%45\<close>.  The same
  happens to a lone carriage return.
\<close>

theorem cr_encode_decode_counterexample:
  "get_encoded_cr_code (Some (get_decoded_cr_code (Some ''%''))) \<noteq> ''%''
   \<and> get_encoded_cr_code (Some (get_decoded_cr_code (Some [CHR 0x0D]))) \<noteq> [CHR 0x0D]"
  by (simp add: get_decoded_cr_code_def get_encoded_cr_code_def
      cr_decode_loop.simps cr_encode_loop.simps)

text \<open>
  Claim C9, amended.  For every string \<open>s\<close>, \<open>get_decoded_cr_code\<close> after
  \<open>get_encoded_cr_code\<close> gives \<open>s\<close> back; so encoding after decoding gives back
  every string that the encoder produced.
\<close>

theorem cr_decode_encode_roundtrip:
  "get_decoded_cr_code (Some (get_encoded_cr_code (Some s))) = s
   \<and> get_encoded_cr_code (Some (get_decoded_cr_code (Some (get_encoded_cr_code (Some s)))))
       = get_encoded_cr_code (Some s)"
  by (simp add: get_decoded_cr_code_def get_encoded_cr_code_def cr_decode_encode_loop)

section \<open>Properties of ExtractUploadPartsFromAllArea\<close>

declare scan_uploaded.simps [simp del]

declare plan_loop.simps [simp del]

text \<open>The cast to \<open>int\<close> keeps the number of an area of a file of at most \<open>2^31 - 1\<close> areas.\<close>

lemma int_cast_id: "- 2147483648 \<le> x \<Longrightarrow> x < 2147483648 \<Longrightarrow> int_cast x = x"
  by (simp add: int_cast_def)

lemma int_cast_range: "- 2147483648 \<le> int_cast x \<and> int_cast x < 2147483648"
  by (simp add: int_cast_def)

lemma int_cast_area:
  assumes "0 < m" "0 \<le> c" "c < fs" "fs \<le> m * 2147483647"
  shows "int_cast (c div m + 1) = c div m + 1"
proof -
  have "c < m * 2147483647" using assms by simp
  have "m * (c div m) + c mod m = c" by (rule mult_div_mod_eq)
  moreover have "0 \<le> c mod m" using assms(1) by simp
  ultimately have "m * (c div m) \<le> c" by linarith
  with \<open>c < m * 2147483647\<close> have "m * (c div m) < m * 2147483647" by simp
  then have "c div m < 2147483647" using assms(1) by (simp add: mult_less_cancel_left_pos)
  moreover have "0 \<le> c div m" using assms(1,2) by (simp add: pos_imp_zdiv_nonneg_iff)
  ultimately show ?thesis by (intro int_cast_id) simp_all
qed

lemma cover_count_append [simp]:
  "cover_count x (rs @ rs') = cover_count x rs + cover_count x rs'"
  by (simp add: cover_count_def)

lemma cover_count_Nil [simp]: "cover_count x [] = 0"
  by (simp add: cover_count_def)

lemma cover_count_Cons [simp]:
  "cover_count x ((s, z) # rs) = (if s \<le> x \<and> x < s + z then 1 else 0) + cover_count x rs"
  by (simp add: cover_count_def)

lemma multiple_gap:
  fixes a b m :: int
  assumes "0 < m" "a mod m = 0" "b mod m = 0" "a < b"
  shows "a + m \<le> b"
proof -
  from assms obtain i j where "a = m * i" "b = m * j" by (auto simp: mod_eq_0_iff_dvd elim!: dvdE)
  with assms have "i < j" by (simp add: mult_less_cancel_left_pos)
  then have "i + 1 \<le> j" by simp
  then have "m * (i + 1) \<le> m * j" using assms(1) by (simp add: mult_le_cancel_left_pos)
  then show ?thesis using \<open>a = m * i\<close> \<open>b = m * j\<close> by (simp add: algebra_simps)
qed

lemma area_size_pos: "0 < m \<Longrightarrow> c < fs \<Longrightarrow> 0 < area_size m fs c"
  by (simp add: area_size_def)

lemma area_size_le: "0 < m \<Longrightarrow> c < fs \<Longrightarrow> area_size m fs c \<le> m \<and> c + area_size m fs c \<le> fs"
  by (simp add: area_size_def)

text \<open>What the scan of the upload list finds on a list of slab parts.\<close>

lemma slab_aligned_parts:
  assumes "0 < m" "slab_aligned m fs ul"
  shows "parts_in_areas m fs ul"
proof -
  have "part_in_area m fs p" if "slab_part m fs p" for p
    using that area_size_pos [OF assms(1), of "startpos p" fs]
    by (simp add: slab_part_def part_in_area_def)
  then show ?thesis
    using assms(2) by (auto simp: slab_aligned_def parts_in_areas_def list_all_iff)
qed

lemma scan_uploaded_aligned:
  assumes m: "0 < m" and c: "c mod m = 0" "c < fs"
    and al: "parts_in_areas m fs ul"
    and it: "it \<le> length ul"
    and ge: "\<forall>j. it \<le> j \<and> j < length ul \<longrightarrow> c \<le> startpos (ul ! j)"
  shows "scan_uploaded ul c (area_size m fs c) it None =
           (if it < length ul \<and> startpos (ul ! it) = c then Some (Suc it, Some it)
            else Some (it, None))"
proof -
  let ?sz = "area_size m fs c"
  have szpos: "0 < ?sz" and szle: "?sz \<le> m" using m c area_size_pos area_size_le by auto
  have part: "part_in_area m fs (ul ! j)" if "j < length ul" for j
    using al that by (simp add: parts_in_areas_def list_all_length)
  have beyond: "c + ?sz \<le> startpos (ul ! j)" if "j < length ul" "c < startpos (ul ! j)" for j
  proof -
    have "c + m \<le> startpos (ul ! j)"
      using multiple_gap [OF m c(1) _ that(2)] part [OF that(1)] by (simp add: part_in_area_def)
    with szle show ?thesis by simp
  qed
  show ?thesis
  proof (cases "it < length ul")
    case False
    then show ?thesis by (subst scan_uploaded.simps) simp
  next
    case True
    show ?thesis
    proof (cases "startpos (ul ! it) = c")
      case eq: True
      have sz: "0 < fp_size (ul ! it)" using part [OF True] by (simp add: part_in_area_def)
      have step1: "scan_uploaded ul c ?sz it None = scan_uploaded ul c ?sz (it + 1) (Some it)"
        using True eq sz szpos by (subst scan_uploaded.simps) simp
      have step2: "scan_uploaded ul c ?sz (it + 1) (Some it) = Some (Suc it, Some it)"
      proof (cases "it + 1 < length ul")
        case False
        then show ?thesis by (subst scan_uploaded.simps) simp
      next
        case lt: True
        have "startpos (ul ! it) < startpos (ul ! (it + 1))"
          using al lt by (simp add: parts_in_areas_def sorted_wrt_iff_nth_less)
        then have "c + ?sz \<le> startpos (ul ! (it + 1))" using beyond [OF lt] eq by simp
        then show ?thesis using lt by (subst scan_uploaded.simps) simp
      qed
      show ?thesis using True eq step1 step2 by simp
    next
      case ne: False
      have "c \<le> startpos (ul ! it)" using ge True by simp
      then have "c + ?sz \<le> startpos (ul ! it)" using beyond [OF True] ne by simp
      then show ?thesis using True ne by (subst scan_uploaded.simps) simp
    qed
  qed
qed

subsection \<open>The loop over the untreated areas of one area\<close>

lemma gap_step_not_first:
  assumes "\<not> first_area g"
  shows "gs_to_copy_list (gap_step uc g u) = gs_to_copy_list g
       \<and> changed_start (gap_step uc g u) = changed_start g
       \<and> changed_size (gap_step uc g u) = changed_size g
       \<and> \<not> first_area (gap_step uc g u)"
  using assms by (simp add: gap_step_def can_unify_copy_def Let_def)

lemma gap_loop_not_first:
  assumes "\<not> first_area g"
  shows "gs_to_copy_list (gap_loop uc us g) = gs_to_copy_list g
       \<and> changed_start (gap_loop uc us g) = changed_start g
       \<and> changed_size (gap_loop uc us g) = changed_size g"
  using assms
proof (induction us arbitrary: g)
  case Nil
  show ?case by simp
next
  case (Cons u us)
  from gap_step_not_first [OF Cons.prems, of uc u] Cons.IH [of "gap_step uc g u"]
  show ?case by simp
qed

lemma gap_loop_copy:
  "gs_to_copy_list (gap_loop uc us (gap_init c sz cl dl)) =
     (if unified uc c sz cl us
      then butlast cl @ [(last cl)\<lparr>mp_size := mp_size (last cl) + (ut_start (hd us) - c)\<rparr>]
      else cl)
   \<and> changed_start (gap_loop uc us (gap_init c sz cl dl)) =
     (if unified uc c sz cl us then ut_start (hd us) else c)
   \<and> changed_size (gap_loop uc us (gap_init c sz cl dl)) =
     (if unified uc c sz cl us then sz - (ut_start (hd us) - c) else sz)"
proof (cases us)
  case Nil
  then show ?thesis by (simp add: gap_init_def unified_def)
next
  case (Cons u rest)
  let ?g1 = "gap_step uc (gap_init c sz cl dl) u"
  have nf: "\<not> first_area ?g1" by (simp add: gap_step_def Let_def)
  have u: "unified uc c sz cl us \<longleftrightarrow>
             c < ut_start u \<and> can_unify_copy uc (gap_init c sz cl dl) u"
    using Cons by (auto simp: unified_def can_unify_copy_def gap_init_def)
  have s1: "gs_to_copy_list ?g1 =
      (if unified uc c sz cl us
       then butlast cl @ [(last cl)\<lparr>mp_size := mp_size (last cl) + (ut_start u - c)\<rparr>]
       else cl)"
    unfolding u by (simp add: gap_step_def Let_def gap_init_def)
  have s2: "changed_start ?g1 = (if unified uc c sz cl us then ut_start u else c)"
    unfolding u by (simp add: gap_step_def Let_def gap_init_def)
  have s3: "changed_size ?g1 = (if unified uc c sz cl us then sz - (ut_start u - c) else sz)"
    unfolding u by (simp add: gap_step_def Let_def gap_init_def)
  from gap_loop_not_first [OF nf, of uc rest] s1 s2 s3 Cons
  show ?thesis by simp
qed

subsection \<open>The invariant of the outer loop\<close>

lemma covers_once_extend:
  assumes "covers_once c rs" "0 \<le> c" "0 < z"
  shows "covers_once (c + z) (rs @ [(c, z)])"
  using assms by (auto simp: covers_once_def)

lemma covers_once_mid:
  assumes "covers_once c (as @ bs)" "0 \<le> c" "0 < z"
  shows "covers_once (c + z) (as @ (c, z) # bs)"
  unfolding covers_once_def
proof
  fix x
  have "cover_count x as + cover_count x bs = (if 0 \<le> x \<and> x < c then 1 else 0)"
    using assms(1) by (simp add: covers_once_def)
  then show "cover_count x (as @ (c, z) # bs) = (if 0 \<le> x \<and> x < c + z then 1 else 0)"
    using assms(2,3) by (simp split: if_splits)
qed

lemma slab_aligned_erase:
  assumes "slab_aligned m fs ul"
  shows "slab_aligned m fs (take i ul @ drop (Suc i) ul)"
proof -
  have "sorted_wrt (\<lambda>a b. startpos a < startpos b) (take i ul @ drop i ul)"
    using assms by (simp add: slab_aligned_def)
  then have cross: "\<forall>x \<in> set (take i ul). \<forall>y \<in> set (drop i ul). startpos x < startpos y"
    and t: "sorted_wrt (\<lambda>a b. startpos a < startpos b) (take i ul)"
    unfolding sorted_wrt_append by auto
  have d: "sorted_wrt (\<lambda>a b. startpos a < startpos b) (drop (Suc i) ul)"
    using assms by (simp add: slab_aligned_def sorted_wrt_drop)
  have sub: "set (drop (Suc i) ul) \<subseteq> set (drop i ul)"
    by (rule set_drop_subset_set_drop) simp
  have "sorted_wrt (\<lambda>a b. startpos a < startpos b) (take i ul @ drop (Suc i) ul)"
    unfolding sorted_wrt_append using t d cross sub by blast
  moreover have "list_all (slab_part m fs) (take i ul @ drop (Suc i) ul)"
    using assms unfolding slab_aligned_def list_all_iff
    by (auto dest: in_set_takeD in_set_dropD)                                 
  ultimately show ?thesis by (simp add: slab_aligned_def)
qed

lemma numbered_area:
  assumes "0 < m" "0 \<le> c" "c < fs"
  shows "numbered m \<lparr>mp_start = c, mp_size = area_size m fs c, mp_part_num = c div m + 1\<rparr>"
  using assms by (simp add: numbered_def area_size_pos)

lemma cover_count_pos:
  "(s, z) \<in> set rs \<Longrightarrow> s \<le> x \<Longrightarrow> x < s + z \<Longrightarrow> 0 < cover_count x rs"
  by (induction rs) auto

lemma div_before_area:
  fixes m c s :: int
  shows "0 < m \<Longrightarrow> c mod m = 0 \<Longrightarrow> s < c \<Longrightarrow> s div m < c div m"
  using verit_le_mono_div_int by fastforce

lemma parts_before:
  assumes m: "0 < m" and c: "c < fs" and inv: "area_inv m fs c ul it tu tc"
    and e: "e \<in> set tu \<union> set tc"
  shows "mp_part_num e < c div m + 1"
proof -
  from inv c have cm: "c mod m = 0"
    and cov: "covers_once c (map mp_range tu @ map mp_range tc @ map fp_range (take it ul))"
    and nu: "list_all (numbered m) tu" "list_all (numbered m) tc"
    and di: "distinct (map mp_part_num tu @ map mp_part_num tc)"
    by (auto simp: area_inv_def)
  from nu e have n: "numbered m e" by (auto simp: list_all_iff)
  have "(mp_start e, mp_size e) \<in> set (map mp_range tu @ map mp_range tc @ map fp_range (take it ul))"
    using e by (auto simp: mp_range_def image_iff)
  then have "0 < cover_count (mp_start e) (map mp_range tu @ map mp_range tc @ map fp_range (take it ul))"
    using n by (intro cover_count_pos [of "mp_start e" "mp_size e"]) (simp_all add: numbered_def)
  moreover have "cover_count (mp_start e) (map mp_range tu @ map mp_range tc @ map fp_range (take it ul))
      = (if 0 \<le> mp_start e \<and> mp_start e < c then 1 else 0)"
    using cov unfolding covers_once_def by blast
  ultimately have "mp_start e < c" by (auto split: if_splits)
  then have "mp_start e div m < c div m" by (rule div_before_area [OF m cm])
  then show ?thesis using n by (simp add: numbered_def)
qed

lemma new_number:
  assumes m: "0 < m" and c: "c < fs" and inv: "area_inv m fs c ul it tu tc"
  shows "c div m + 1 \<notin> mp_part_num ` (set tu \<union> set tc)"
  using parts_before [OF m c inv] by force

lemma next_area:
  assumes "0 < m" "c < fs" "0 \<le> c" "c mod m = 0"
  shows "0 \<le> c + area_size m fs c \<and> c + area_size m fs c \<le> fs
       \<and> ((c + area_size m fs c) mod m = 0 \<or> c + area_size m fs c = fs)"
  using assms by (auto simp: area_size_def)

lemma beyond_area:
  assumes m: "0 < m" and c: "c mod m = 0" "c < fs"
    and al: "parts_in_areas m fs ul" and j: "j < length ul" and gt: "c < startpos (ul ! j)"
  shows "c + area_size m fs c \<le> startpos (ul ! j)"
proof -
  have "part_in_area m fs (ul ! j)" using al j by (simp add: parts_in_areas_def list_all_length)
  then have "c + m \<le> startpos (ul ! j)"
    using multiple_gap [OF m c(1) _ gt] by (simp add: part_in_area_def)
  moreover have "area_size m fs c \<le> m" using area_size_le [OF m c(2)] by simp
  ultimately show ?thesis by simp
qed

lemma after_hit:
  assumes m: "0 < m" and c: "c mod m = 0" "c < fs"
    and al: "parts_in_areas m fs ul" and it: "it < length ul" and eq: "startpos (ul ! it) = c"
    and j: "Suc it \<le> j" "j < length ul"
  shows "c + area_size m fs c \<le> startpos (ul ! j)"
proof -
  have "startpos (ul ! it) < startpos (ul ! j)"
    using al j by (simp add: parts_in_areas_def sorted_wrt_iff_nth_less)
  then show ?thesis using beyond_area [OF m c al j(2)] eq by simp
qed

lemma area_inv_keep:
  assumes m: "0 < m" and c: "c < fs" and inv: "area_inv m fs c ul it tu tc"
    and it: "it < length ul" and eq: "startpos (ul ! it) = c"
  shows "area_inv m fs (c + area_size m fs c) ul (Suc it) tu tc"
proof -
  from inv c have c0: "0 \<le> c" and cm: "c mod m = 0" and al: "slab_aligned m fs ul"
    and ge0: "\<forall>j. it \<le> j \<and> j < length ul \<longrightarrow> c \<le> startpos (ul ! j)"
    and cov: "covers_once c (map mp_range tu @ map mp_range tc @ map fp_range (take it ul))"
    and nu: "list_all (numbered m) tu" "list_all (numbered m) tc"
    and di: "distinct (map mp_part_num tu @ map mp_part_num tc)"
    by (auto simp: area_inv_def)
  have "slab_part m fs (ul ! it)" using al it by (simp add: slab_aligned_def list_all_length)
  then have r: "fp_range (ul ! it) = (c, area_size m fs c)"
    using eq by (simp add: slab_part_def fp_range_def)
  have "covers_once (c + area_size m fs c)
          ((map mp_range tu @ map mp_range tc @ map fp_range (take it ul)) @ [(c, area_size m fs c)])"
    by (rule covers_once_extend [OF cov c0 area_size_pos [OF m c]])
  then have cov': "covers_once (c + area_size m fs c)
          (map mp_range tu @ map mp_range tc @ map fp_range (take (Suc it) ul))"
    using it r by (simp add: take_Suc_conv_app_nth)
  have ge: "\<forall>j. Suc it \<le> j \<and> j < length ul \<longrightarrow> c + area_size m fs c \<le> startpos (ul ! j)"
    using after_hit [OF m cm c slab_aligned_parts [OF m al] it eq] by blast
  show ?thesis
    unfolding area_inv_def using next_area [OF m c c0 cm] al it ge cov' nu di by simp
qed

lemma area_inv_erase:
  assumes m: "0 < m" and c: "c < fs" and inv: "area_inv m fs c ul it tu tc"
    and it: "it < length ul" and eq: "startpos (ul ! it) = c"
  shows "area_inv m fs (c + area_size m fs c) (take it ul @ drop (Suc it) ul) it
           (tu @ [\<lparr>mp_start = c, mp_size = area_size m fs c, mp_part_num = c div m + 1\<rparr>]) tc"
proof -
  let ?ul = "take it ul @ drop (Suc it) ul"
  from inv c have c0: "0 \<le> c" and cm: "c mod m = 0" and al: "slab_aligned m fs ul"
    and ge0: "\<forall>j. it \<le> j \<and> j < length ul \<longrightarrow> c \<le> startpos (ul ! j)"
    and cov: "covers_once c (map mp_range tu @ map mp_range tc @ map fp_range (take it ul))"
    and nu: "list_all (numbered m) tu" "list_all (numbered m) tc"
    and di: "distinct (map mp_part_num tu @ map mp_part_num tc)"
    by (auto simp: area_inv_def)
  have tk: "take it ?ul = take it ul" using it by simp
  have "covers_once (c + area_size m fs c)
          (map mp_range tu @ (c, area_size m fs c) # (map mp_range tc @ map fp_range (take it ul)))"
    by (rule covers_once_mid [OF cov c0 area_size_pos [OF m c]])
  then have cov': "covers_once (c + area_size m fs c)
      (map mp_range (tu @ [\<lparr>mp_start = c, mp_size = area_size m fs c, mp_part_num = c div m + 1\<rparr>])
         @ map mp_range tc @ map fp_range (take it ?ul))"
    by (simp only: tk) (simp add: mp_range_def)
  have ge: "\<forall>j. it \<le> j \<and> j < length ?ul \<longrightarrow> c + area_size m fs c \<le> startpos (?ul ! j)"
  proof (intro allI impI)
    fix j assume j: "it \<le> j \<and> j < length ?ul"
    then have "?ul ! j = ul ! (Suc j)" using it by (simp add: nth_append min_def)
    moreover have "Suc j < length ul" using j it by auto
    ultimately show "c + area_size m fs c \<le> startpos (?ul ! j)"
      using after_hit [OF m cm c slab_aligned_parts [OF m al] it eq, of "Suc j"] j by simp
  qed
  have len: "it \<le> length ?ul" using it by simp
  show ?thesis
    unfolding area_inv_def
    using next_area [OF m c c0 cm] slab_aligned_erase [OF al, of it] len ge cov' nu
      numbered_area [OF m c0 c] di new_number [OF m c inv] by (simp add: image_Un)
qed

lemma after_miss:
  assumes m: "0 < m" and cm: "c mod m = 0" and c: "c < fs"
    and al: "parts_in_areas m fs ul"
    and ge: "\<forall>j. it \<le> j \<and> j < length ul \<longrightarrow> c \<le> startpos (ul ! j)"
    and miss: "\<not> (it < length ul \<and> startpos (ul ! it) = c)"
  shows "\<forall>j. it \<le> j \<and> j < length ul \<longrightarrow> c + area_size m fs c \<le> startpos (ul ! j)"
proof (intro allI impI)
  fix j assume j: "it \<le> j \<and> j < length ul"
  have itl: "it < length ul" using j by simp
  have "c < startpos (ul ! it)" using ge itl miss by force
  moreover have "startpos (ul ! it) \<le> startpos (ul ! j)"
  proof (cases "it = j")
    case True then show ?thesis by simp
  next
    case False
    then have "startpos (ul ! it) < startpos (ul ! j)"
      using al j by (simp add: parts_in_areas_def sorted_wrt_iff_nth_less)
    then show ?thesis by simp
  qed
  ultimately have "c < startpos (ul ! j)" by simp
  then show "c + area_size m fs c \<le> startpos (ul ! j)"
    using beyond_area [OF m cm c al] j by simp
qed

lemma area_inv_upload:
  assumes m: "0 < m" and c: "c < fs" and inv: "area_inv m fs c ul it tu tc"
    and miss: "\<not> (it < length ul \<and> startpos (ul ! it) = c)"
  shows "area_inv m fs (c + area_size m fs c) ul it
           (tu @ [\<lparr>mp_start = c, mp_size = area_size m fs c, mp_part_num = c div m + 1\<rparr>]) tc"
proof -
  from inv c have c0: "0 \<le> c" and cm: "c mod m = 0" and al: "slab_aligned m fs ul"
    and ge0: "\<forall>j. it \<le> j \<and> j < length ul \<longrightarrow> c \<le> startpos (ul ! j)"
    and it: "it \<le> length ul"
    and cov: "covers_once c (map mp_range tu @ map mp_range tc @ map fp_range (take it ul))"
    and nu: "list_all (numbered m) tu" "list_all (numbered m) tc"
    and di: "distinct (map mp_part_num tu @ map mp_part_num tc)"
    by (auto simp: area_inv_def)
  have "covers_once (c + area_size m fs c)
          (map mp_range tu @ (c, area_size m fs c) # (map mp_range tc @ map fp_range (take it ul)))"
    by (rule covers_once_mid [OF cov c0 area_size_pos [OF m c]])
  then have cov': "covers_once (c + area_size m fs c)
      (map mp_range (tu @ [\<lparr>mp_start = c, mp_size = area_size m fs c, mp_part_num = c div m + 1\<rparr>])
         @ map mp_range tc @ map fp_range (take it ul))"
    by (simp add: mp_range_def)
  show ?thesis
    unfolding area_inv_def
    using next_area [OF m c c0 cm] al it after_miss [OF m cm c slab_aligned_parts [OF m al] ge0 miss] cov' nu
      numbered_area [OF m c0 c] di new_number [OF m c inv] by (simp add: image_Un)
qed

lemma area_inv_copy:
  assumes m: "0 < m" and c: "c < fs" and inv: "area_inv m fs c ul it tu tc"
    and miss: "\<not> (it < length ul \<and> startpos (ul ! it) = c)"
  shows "area_inv m fs (c + area_size m fs c) ul it tu
           (tc @ [\<lparr>mp_start = c, mp_size = area_size m fs c, mp_part_num = c div m + 1\<rparr>])"
proof -
  from inv c have c0: "0 \<le> c" and cm: "c mod m = 0" and al: "slab_aligned m fs ul"
    and ge0: "\<forall>j. it \<le> j \<and> j < length ul \<longrightarrow> c \<le> startpos (ul ! j)"
    and it: "it \<le> length ul"
    and cov: "covers_once c ((map mp_range tu @ map mp_range tc) @ map fp_range (take it ul))"
    and nu: "list_all (numbered m) tu" "list_all (numbered m) tc"
    and di: "distinct (map mp_part_num tu @ map mp_part_num tc)"
    by (auto simp: area_inv_def)
  have "covers_once (c + area_size m fs c)
          ((map mp_range tu @ map mp_range tc) @ (c, area_size m fs c) # map fp_range (take it ul))"
    by (rule covers_once_mid [OF cov c0 area_size_pos [OF m c]])
  then have cov': "covers_once (c + area_size m fs c)
      (map mp_range tu
         @ map mp_range (tc @ [\<lparr>mp_start = c, mp_size = area_size m fs c, mp_part_num = c div m + 1\<rparr>])
         @ map fp_range (take it ul))"
    by (simp add: mp_range_def)
  show ?thesis
    unfolding area_inv_def
    using next_area [OF m c c0 cm] al it after_miss [OF m cm c slab_aligned_parts [OF m al] ge0 miss] cov' nu
      numbered_area [OF m c0 c] di new_number [OF m c inv] by (simp add: image_Un)
qed

lemma div_within_area:
  fixes c g m :: int
  assumes "0 < m" "c mod m = 0" "0 \<le> g" "g < m"
  shows "(c + g) div m = c div m"
  using assms by (simp add: div_add1_eq)

lemma MIN_MULTIPART_SIZE_pos: "0 < MIN_MULTIPART_SIZE"
  by (simp add: MIN_MULTIPART_SIZE_def)

lemma area_inv_unify:
  assumes m: "0 < m" and c: "c < fs" and inv: "area_inv m fs c ul it tu tc"
    and miss: "\<not> (it < length ul \<and> startpos (ul ! it) = c)"
    and U: "unified uc c (area_size m fs c) tc us"
  shows "area_inv m fs (c + area_size m fs c) ul it
           (tu @ [\<lparr>mp_start = ut_start (hd us),
                   mp_size = area_size m fs c - (ut_start (hd us) - c),
                   mp_part_num = c div m + 1\<rparr>])
           (butlast tc @ [(last tc)\<lparr>mp_size := mp_size (last tc) + (ut_start (hd us) - c)\<rparr>])"
proof -
  let ?sz = "area_size m fs c"
  let ?g = "ut_start (hd us) - c"
  let ?l = "last tc"
  from inv c have c0: "0 \<le> c" and cm: "c mod m = 0" and al: "slab_aligned m fs ul"
    and ge0: "\<forall>j. it \<le> j \<and> j < length ul \<longrightarrow> c \<le> startpos (ul ! j)"
    and it: "it \<le> length ul"
    and cov: "covers_once c (map mp_range tu @ map mp_range tc @ map fp_range (take it ul))"
    and nu: "list_all (numbered m) tu" "list_all (numbered m) tc"
    and di: "distinct (map mp_part_num tu @ map mp_part_num tc)"
    by (auto simp: area_inv_def)
  from U have g0: "0 < ?g" and ne: "tc \<noteq> []" and lend: "mp_start ?l + mp_size ?l = c"
    and rem: "MIN_MULTIPART_SIZE \<le> (c + ?sz) - ut_start (hd us)"
    by (auto simp: unified_def)
  have gsz: "?g < ?sz" using rem MIN_MULTIPART_SIZE_pos by simp
  have szm: "?sz \<le> m" using area_size_le [OF m c] by simp
  have nl: "numbered m ?l" using nu(2) ne by (simp add: list_all_iff)
  then have zl: "0 < mp_size ?l" by (simp add: numbered_def)
  have tc: "tc = butlast tc @ [?l]" using ne by simp
  have cov': "covers_once (c + ?sz)
      (map mp_range (tu @ [\<lparr>mp_start = ut_start (hd us), mp_size = ?sz - ?g,
                             mp_part_num = c div m + 1\<rparr>])
         @ map mp_range (butlast tc @ [?l\<lparr>mp_size := mp_size ?l + ?g\<rparr>])
         @ map fp_range (take it ul))"
    unfolding covers_once_def
  proof
    fix x
    have "cover_count x (map mp_range tu @ map mp_range (butlast tc @ [?l])
             @ map fp_range (take it ul)) = (if 0 \<le> x \<and> x < c then 1 else 0)"
      using cov tc by (simp add: covers_once_def)
    then show "cover_count x
        (map mp_range (tu @ [\<lparr>mp_start = ut_start (hd us), mp_size = ?sz - ?g,
                               mp_part_num = c div m + 1\<rparr>])
           @ map mp_range (butlast tc @ [?l\<lparr>mp_size := mp_size ?l + ?g\<rparr>])
           @ map fp_range (take it ul)) = (if 0 \<le> x \<and> x < c + ?sz then 1 else 0)"
      using lend zl g0 gsz c0 by (auto simp: mp_range_def split: if_splits)
  qed
  have n1: "numbered m \<lparr>mp_start = ut_start (hd us), mp_size = ?sz - ?g,
                         mp_part_num = c div m + 1\<rparr>"
  proof -
    have "(c + ?g) div m = c div m"
      using g0 gsz szm by (intro div_within_area [OF m cm]) simp_all
    then show ?thesis using g0 gsz c0 by (simp add: numbered_def)
  qed
  have n2: "numbered m (?l\<lparr>mp_size := mp_size ?l + ?g\<rparr>)"
    using nl g0 by (simp add: numbered_def)
  have n3: "list_all (numbered m) (butlast tc)"
    using nu(2) by (auto simp: list_all_iff dest: in_set_butlastD)
  have "map mp_part_num (butlast tc @ [?l\<lparr>mp_size := mp_size ?l + ?g\<rparr>])
          = map mp_part_num (butlast tc @ [?l])" by simp
  then have nums: "map mp_part_num (butlast tc @ [?l\<lparr>mp_size := mp_size ?l + ?g\<rparr>])
          = map mp_part_num tc" using tc by simp
  show ?thesis
    unfolding area_inv_def
    using next_area [OF m c c0 cm] al it after_miss [OF m cm c slab_aligned_parts [OF m al] ge0 miss] cov' nu(1) n1 n2 n3
      di new_number [OF m c inv] nums by (simp add: image_Un)
qed

lemma plan_step_inv:
  assumes m: "0 < m" and c: "c < fs" and inv: "plan_inv m fs c ps"
    and bd: "fs \<le> m * 2147483647"
  shows "\<exists>ps'. plan_step m fs uc c ps = Some ps' \<and> plan_inv m fs (c + area_size m fs c) ps'"
proof -
  let ?sz = "area_size m fs c"
  let ?ul = "ps_upload_list ps"
  let ?it = "uploaded_iter ps"
  obtain cu dup where ex: "extract_cur_untreated c ?sz (dup_untreated ps) [] = (cu, dup)"
    by (cases "extract_cur_untreated c ?sz (dup_untreated ps) []")
  from inv have ainv: "area_inv m fs c ?ul ?it (to_upload_list ps) (to_copy_list ps)"
    by (simp add: plan_inv_def)
  then have cm: "c mod m = 0" and al: "slab_aligned m fs ?ul" and it: "?it \<le> length ?ul"
    and ge: "\<forall>j. ?it \<le> j \<and> j < length ?ul \<longrightarrow> c \<le> startpos (?ul ! j)"
    and c0: "0 \<le> c"
    using c by (auto simp: area_inv_def)
  note scan = scan_uploaded_aligned [OF m cm c slab_aligned_parts [OF m al] it ge]
  note num = int_cast_area [OF m c0 c bd]
  show ?thesis
  proof (cases "?it < length ?ul \<and> startpos (?ul ! ?it) = c")
    case hit: True
    then have sc: "scan_uploaded ?ul c ?sz ?it None = Some (Suc ?it, Some ?it)"
      using scan by simp
    show ?thesis
    proof (cases "cu = []")
      case True
      have "plan_step m fs uc c ps = Some (ps\<lparr>dup_untreated := dup, uploaded_iter := Suc ?it\<rparr>)"
        using ex sc True by (simp add: plan_step_def plan_area_def num)
      moreover have "plan_inv m fs (c + ?sz) (ps\<lparr>dup_untreated := dup, uploaded_iter := Suc ?it\<rparr>)"
        using area_inv_keep [OF m c ainv] hit by (simp add: plan_inv_def)
      ultimately show ?thesis by simp
    next
      case False
      let ?ps' = "plan_area uc c ?sz (c div m + 1) cu (Some ?it)
                    (ps\<lparr>dup_untreated := dup, uploaded_iter := Suc ?it\<rparr>)"
      have "plan_step m fs uc c ps = Some ?ps'"
        using ex sc by (simp add: plan_step_def num)
      moreover have "plan_inv m fs (c + ?sz) ?ps'"
        using area_inv_erase [OF m c ainv] hit False by (simp add: plan_inv_def plan_area_def)
      ultimately show ?thesis by simp
    qed
  next
    case miss: False
    then have sc: "scan_uploaded ?ul c ?sz ?it None = Some (?it, None)"
      using scan by simp
    let ?ps' = "plan_area uc c ?sz (c div m + 1) cu None
                  (ps\<lparr>dup_untreated := dup, uploaded_iter := ?it\<rparr>)"
    have st: "plan_step m fs uc c ps = Some ?ps'"
      using ex sc by (simp add: plan_step_def num)
    have "plan_inv m fs (c + ?sz) ?ps'"
    proof (cases "cu = []")
      case True
      then show ?thesis
        using area_inv_upload [OF m c ainv miss] area_inv_copy [OF m c ainv miss]
        by (simp add: plan_inv_def plan_area_def)
    next
      case False
      note gl = gap_loop_copy [of uc cu c ?sz "to_copy_list ps" "to_download_list ps",
                  unfolded gap_init_def]
      show ?thesis
      proof (cases "unified uc c ?sz (to_copy_list ps) cu")
        case True
        then show ?thesis
          using area_inv_unify [OF m c ainv miss True] False gl
          by (simp add: plan_inv_def plan_area_def Let_def)
      next
        case nu: False
        then show ?thesis
          using area_inv_upload [OF m c ainv miss] False gl
          by (simp add: plan_inv_def plan_area_def Let_def)
      qed
    qed
    with st show ?thesis by simp
  qed
qed

lemma plan_loop_inv:
  assumes "0 < m" "plan_inv m fs c ps" "fs \<le> m * 2147483647"
  shows "\<exists>ps'. plan_loop m fs uc c ps = Some (True, ps') \<and> plan_inv m fs fs ps'"
  using assms
proof (induction m fs uc c ps rule: plan_loop.induct)
  case (1 m fs uc c ps)
  show ?case
  proof (cases "c < fs")
    case False
    with "1.prems"(2) have "c = fs" by (simp add: plan_inv_def area_inv_def)
    then show ?thesis using "1.prems"(2) by (subst plan_loop.simps) simp
  next
    case True
    from plan_step_inv [OF "1.prems"(1) True "1.prems"(2,3), of uc]
    obtain ps1 where s: "plan_step m fs uc c ps = Some ps1"
      and i: "plan_inv m fs (c + area_size m fs c) ps1" by blast
    have nm: "\<not> m \<le> 0" using "1.prems"(1) by simp
    from "1.IH" [OF True nm s "1.prems"(1) i "1.prems"(3)]
    show ?thesis using True nm s by (subst plan_loop.simps) simp
  qed
qed

lemma cover_count_zero:
  "cover_count x rs = 0 \<Longrightarrow> (s, z) \<in> set rs \<Longrightarrow> \<not> (s \<le> x \<and> x < s + z)"
  using cover_count_pos [of s z rs x] by auto

lemma tiles_sorted:
  assumes "sorted_wrt (\<lambda>p q. fst p < fst q) rs"
    and "\<forall>(s, z) \<in> set rs. 0 < z"
    and "\<forall>x. cover_count x rs = (if a \<le> x \<and> x < b then 1 else 0)"
    and "a \<le> b"
  shows "tiles a rs b"
  using assms
proof (induction rs arbitrary: a)
  case Nil
  have "cover_count a [] = (if a \<le> a \<and> a < b then 1 else 0)" using Nil.prems(3) by blast
  then have "\<not> a < b" by (simp split: if_splits)
  with Nil.prems(4) show ?case by simp
next
  case (Cons r rs)
  obtain s z where r: "r = (s, z)" by (cases r)
  have z: "0 < z" using Cons.prems(2) r by simp
  have cov: "cover_count x ((s, z) # rs) = (if a \<le> x \<and> x < b then 1 else 0)" for x
    using Cons.prems(3) r by simp
  have min: "s < s'" if "(s', z') \<in> set rs" for s' z'
    using Cons.prems(1) r that by force
  have as: "a \<le> s \<and> s + z \<le> b"
  proof -
    from cov [of s] z have "a \<le> s" by (simp split: if_splits)
    moreover from cov [of "s + z - 1"] z have "s + z - 1 < b" by (simp split: if_splits)
    ultimately show ?thesis by simp
  qed
  have sa: "s = a"
  proof (rule ccontr)
    assume "s \<noteq> a"
    with as have lt: "a < s" by simp
    with as z have "a < b" by simp
    with cov [of a] lt have "cover_count a rs = 1" by simp
    then have "cover_count a rs \<noteq> 0" by simp
    then obtain s' z' where "(s', z') \<in> set rs" "s' \<le> a"
      by (auto simp: cover_count_def filter_empty_conv)
    with min [of s' z'] lt show False by simp
  qed
  have rest: "\<forall>x. cover_count x rs = (if a + z \<le> x \<and> x < b then 1 else 0)"
  proof
    fix x
    show "cover_count x rs = (if a + z \<le> x \<and> x < b then 1 else 0)"
      using cov [of x] sa z by (auto split: if_splits)
  qed
  have "tiles (a + z) rs b"
    using Cons.prems(1,2) rest as sa by (intro Cons.IH) auto
  then show ?case using r sa z by simp
qed

lemma cover_count_sort_key:
  "cover_count x (map snd (sort_key fst L)) = cover_count x (map snd L)"
proof -
  let ?P = "\<lambda>(s, z). s \<le> x \<and> x < s + z"
  have "length (filter ?P (map snd (sort_key fst L)))
          = length (sort_key fst (filter (?P \<circ> snd) L))"
    by (simp add: filter_map filter_sort)
  also have "\<dots> = length (filter ?P (map snd L))"
    by (simp add: filter_map)
  finally show ?thesis by (simp add: cover_count_def)
qed

lemma tiles_by_number:
  fixes L :: "(int \<times> off_t \<times> off_t) list"
  assumes m: "0 < m" and fs: "0 \<le> fs"
    and d: "distinct (map fst L)"
    and n: "\<forall>(n, s, z) \<in> set L. 0 < z \<and> n = s div m + 1"
    and cov: "covers_once fs (map snd L)"
  shows "tiles 0 (map snd (sort_key fst L)) fs"
proof -
  let ?S = "sort_key fst L"
  have "sorted (map fst ?S)" "distinct (map fst ?S)"
    using d by (simp_all add: distinct_map)
  then have "sorted_wrt (<) (map fst ?S)" by (simp add: strict_sorted_iff)
  then have byn: "sorted_wrt (\<lambda>p q. fst p < fst q) ?S" by (simp add: sorted_wrt_map)
  have "sorted_wrt (\<lambda>p q. fst (snd p) < fst (snd q)) ?S"
  proof (rule sorted_wrt_mono_rel [OF _ byn])
    fix p q assume pq: "p \<in> set ?S" "q \<in> set ?S" "fst p < fst q"
    obtain n s z where p: "p = (n, s, z)" by (cases p)
    obtain n' s' z' where q: "q = (n', s', z')" by (cases q)
    from pq n p q have "n = s div m + 1" "n' = s' div m + 1" by auto
    with pq(3) p q have "s div m < s' div m" by simp
    then have "s < s'" using m by (meson not_less zdiv_mono1)
    then show "fst (snd p) < fst (snd q)" using p q by simp
  qed
  then have 1: "sorted_wrt (\<lambda>p q. fst p < fst q) (map snd ?S)" by (simp add: sorted_wrt_map)
  have 2: "\<forall>(s, z) \<in> set (map snd ?S). 0 < z" using n by force
  have 3: "\<forall>x. cover_count x (map snd ?S) = (if 0 \<le> x \<and> x < fs then 1 else 0)"
    using cov by (simp add: covers_once_def cover_count_sort_key)
  show ?thesis by (rule tiles_sorted [OF 1 2 3 fs])
qed

lemma slab_aligned_numbers:
  assumes m: "0 < m" and al: "slab_aligned m fs ul"
  shows "distinct (map get_part_number ul)"
proof -
  have s: "sorted_wrt (\<lambda>a b. startpos a < startpos b) ul"
    and p: "\<forall>q \<in> set ul. slab_part m fs q"
    using al by (simp_all add: slab_aligned_def list_all_iff)
  have "sorted_wrt (\<lambda>a b. get_part_number a < get_part_number b) ul"
  proof (rule sorted_wrt_mono_rel [OF _ s])
    fix a b assume ab: "a \<in> set ul" "b \<in> set ul" "startpos a < startpos b"
    have "startpos a div m < startpos b div m"
      using p ab by (intro div_before_area [OF m]) (simp_all add: slab_part_def)
    then show "get_part_number a < get_part_number b"
      using p ab by (simp add: slab_part_def)
  qed
  then have "sorted_wrt (<) (map get_part_number ul)" by (simp add: sorted_wrt_map)
  then show ?thesis by (simp add: strict_sorted_iff)
qed

lemma slab_contains:
  fixes m fs s x :: int
  assumes "0 < m" "s mod m = 0" "x div m = s div m" "x < fs"
  shows "s \<le> x \<and> x < s + area_size m fs s"
proof -
  have "m * (s div m) + s mod m = s" by (rule mult_div_mod_eq)
  then have s: "s = m * (x div m)" using assms(2,3) by simp
  have x: "m * (x div m) + x mod m = x" by (rule mult_div_mod_eq)
  have "0 \<le> x mod m" "x mod m < m" using assms(1) by simp_all
  with x s have "s \<le> x" "x < s + m" by linarith+
  then show ?thesis using assms(4) by (simp add: area_size_def)
qed

lemma area_inv_final:
  assumes m: "0 < m" and fs: "0 < fs" and inv: "area_inv m fs fs ul it tu tc"
  shows "tiles 0 (in_part_number_order (map mp_entry (tu @ tc) @ map fp_entry ul)) fs"
proof -
  let ?L = "map mp_entry (tu @ tc) @ map fp_entry ul"
  from inv have al: "slab_aligned m fs ul" and it: "it \<le> length ul"
    and ge: "\<forall>j. it \<le> j \<and> j < length ul \<longrightarrow> fs \<le> startpos (ul ! j)"
    and cov: "covers_once fs (map mp_range tu @ map mp_range tc @ map fp_range (take it ul))"
    and nu: "list_all (numbered m) tu" "list_all (numbered m) tc"
    and di: "distinct (map mp_part_num tu @ map mp_part_num tc)"
    by (auto simp: area_inv_def)
  have sp: "\<forall>q \<in> set ul. slab_part m fs q" using al by (simp add: slab_aligned_def list_all_iff)
  have "it = length ul"
  proof (rule ccontr)
    assume "it \<noteq> length ul"
    with it have lt: "it < length ul" by simp
    then have "fs \<le> startpos (ul ! it)" using ge by simp
    moreover have "startpos (ul ! it) < fs" using sp lt by (simp add: slab_part_def)
    ultimately show False by simp
  qed
  then have cov: "covers_once fs (map mp_range (tu @ tc) @ map fp_range ul)"
    using cov by simp
  have snd_L: "map snd ?L = map mp_range (tu @ tc) @ map fp_range ul"
    by (simp add: mp_entry_def fp_entry_def mp_range_def fp_range_def)
  have count: "cover_count x (map mp_range (tu @ tc)) + cover_count x (map fp_range ul)
                 = (if 0 \<le> x \<and> x < fs then 1 else 0)" for x
    using cov unfolding covers_once_def cover_count_append [symmetric] by blast
  have n: "\<forall>(n, s, z) \<in> set ?L. 0 < z \<and> n = s div m + 1"
  proof -
    have "0 < mp_size e \<and> mp_part_num e = mp_start e div m + 1" if "e \<in> set (tu @ tc)" for e
      using nu that by (auto simp: list_all_iff numbered_def)
    moreover have "0 < fp_size q \<and> get_part_number q = startpos q div m + 1" if "q \<in> set ul" for q
      using sp that area_size_pos [OF m, of "startpos q" fs] by (simp add: slab_part_def)
    ultimately show ?thesis by (auto simp: mp_entry_def fp_entry_def)
  qed
  have cross: "mp_part_num e \<noteq> get_part_number q" if e: "e \<in> set (tu @ tc)" and q: "q \<in> set ul" for e q
  proof
    assume eq: "mp_part_num e = get_part_number q"
    have ne: "numbered m e" using nu e by (auto simp: list_all_iff)
    have sq: "slab_part m fs q" using sp q by simp
    let ?x = "mp_start e"
    have c1: "0 < cover_count ?x (map mp_range (tu @ tc))"
      using e ne by (intro cover_count_pos [of ?x "mp_size e"]) (auto simp: mp_range_def numbered_def)
    with count [of ?x] have xfs: "?x < fs" by (simp split: if_splits)
    have "?x div m = startpos q div m" using eq ne sq by (simp add: numbered_def slab_part_def)
    then have "startpos q \<le> ?x \<and> ?x < startpos q + area_size m fs (startpos q)"
      using sq xfs by (intro slab_contains [OF m]) (simp_all add: slab_part_def)
    then have c2: "0 < cover_count ?x (map fp_range ul)"
      using q sq by (intro cover_count_pos [of "startpos q" "fp_size q"])
        (auto simp: fp_range_def slab_part_def)
    from c1 c2 count [of ?x] show False by (simp split: if_splits)
  qed
  have d: "distinct (map fst ?L)"
  proof -
    have f1: "fst \<circ> mp_entry = mp_part_num" by (rule ext) (simp add: mp_entry_def)
    have f2: "fst \<circ> fp_entry = get_part_number" by (rule ext) (simp add: fp_entry_def)
    have "map fst ?L = (map mp_part_num tu @ map mp_part_num tc) @ map get_part_number ul"
      by (simp add: f1 f2)
    moreover have "distinct ((map mp_part_num tu @ map mp_part_num tc) @ map get_part_number ul)"
      unfolding distinct_append [of "map mp_part_num tu @ map mp_part_num tc"]
      using di slab_aligned_numbers [OF m al] cross cross [THEN not_sym] by auto
    ultimately show ?thesis by (simp only:)
  qed
  have "covers_once fs (map snd ?L)" using cov by (simp only: snd_L)
  then show ?thesis
    unfolding in_part_number_order_def using fs d n by (intro tiles_by_number [OF m]) simp_all
qed


subsection \<open>A file of more areas than an \<open>int\<close> counts\<close>

text \<open>
  With an empty untreated list, an empty upload list and copying in use, the planner
  makes every area of the file a part to copy.
\<close>

lemma plan_step_empty:
  assumes "dup_untreated ps = []" "ps_upload_list ps = []"
  shows "plan_step m fs True c ps =
           Some (ps\<lparr>to_copy_list := to_copy_list ps @
                   [\<lparr>mp_start = c, mp_size = area_size m fs c,
                     mp_part_num = int_cast (c div m + 1)\<rparr>]\<rparr>)"
  using assms
  by (simp add: plan_step_def extract_cur_untreated.simps scan_uploaded.simps plan_area_def)

lemma area_starts_from:
  fixes c m fs :: int
  assumes m: "0 < m" and c: "c < fs"
  shows "(c \<le> k \<and> k < fs \<and> (k - c) mod m = 0) \<longleftrightarrow>
         (k = c \<or> (c + area_size m fs c \<le> k \<and> k < fs \<and> (k - (c + area_size m fs c)) mod m = 0))"
proof -
  have gap: "c + m \<le> k" if "c < k" "(k - c) mod m = 0"
    using multiple_gap [OF m, of 0 "k - c"] that by simp
  have "k - (c + m) = (k - c) - m" by simp
  then have shift: "(k - (c + m)) mod m = (k - c) mod m" by (simp only: minus_mod_self2)
  show ?thesis
  proof (cases "c + m \<le> fs")
    case True
    then have sz: "area_size m fs c = m" by (simp add: area_size_def)
    show ?thesis unfolding sz shift using gap m c by auto
  next
    case False
    then have sz: "c + area_size m fs c = fs" by (simp add: area_size_def)
    show ?thesis unfolding sz using gap False c by auto
  qed
qed

lemma plan_loop_empty:
  assumes "0 < m" "dup_untreated ps = []" "ps_upload_list ps = []"
  shows "\<exists>ps'. plan_loop m fs True c ps = Some (True, ps')
           \<and> to_upload_list ps' = to_upload_list ps \<and> ps_upload_list ps' = []
           \<and> set (to_copy_list ps') = set (to_copy_list ps) \<union>
               (\<lambda>k. \<lparr>mp_start = k, mp_size = area_size m fs k,
                     mp_part_num = int_cast (k div m + 1)\<rparr>)
               ` {k. c \<le> k \<and> k < fs \<and> (k - c) mod m = 0}"
  using assms
proof (induction m fs "True" c ps rule: plan_loop.induct)
  case (1 m fs c ps)
  let ?E = "\<lambda>k. \<lparr>mp_start = k, mp_size = area_size m fs k, mp_part_num = int_cast (k div m + 1)\<rparr>"
  let ?S = "\<lambda>c. {k. c \<le> k \<and> k < fs \<and> (k - c) mod m = 0}"
  show ?case
  proof (cases "c < fs")
    case False
    then have run: "plan_loop m fs True c ps = Some (True, ps)" by (subst plan_loop.simps) simp
    have emp: "?S c = {}" using False by auto
    have same: "set (to_copy_list ps) = set (to_copy_list ps) \<union> ?E ` ?S c"
      unfolding emp by simp
    show ?thesis
      by (intro exI [of _ ps] conjI, rule run, rule refl, rule "1.prems"(3), rule same)
  next
    case True
    let ?ps1 = "ps\<lparr>to_copy_list := to_copy_list ps @ [?E c]\<rparr>"
    let ?c1 = "c + area_size m fs c"
    have st: "plan_step m fs True c ps = Some ?ps1"
      by (rule plan_step_empty [OF "1.prems"(2,3)])
    have nm: "\<not> m \<le> 0" using "1.prems"(1) by simp
    have e1: "dup_untreated ?ps1 = []" "ps_upload_list ?ps1 = []"
      using "1.prems"(2,3) by simp_all
    from "1.hyps" [OF True nm st "1.prems"(1) e1]
    obtain ps' where r: "plan_loop m fs True ?c1 ?ps1 = Some (True, ps')"
      and u: "to_upload_list ps' = to_upload_list ?ps1" and l: "ps_upload_list ps' = []"
      and cs: "set (to_copy_list ps') = set (to_copy_list ?ps1) \<union> ?E ` ?S ?c1"
      by blast
    have run: "plan_loop m fs True c ps = Some (True, ps')"
      using True nm st r by (subst plan_loop.simps) simp
    have "?S c = insert c (?S ?c1)"
      by (rule set_eqI)
        (simp only: mem_Collect_eq insert_iff area_starts_from [OF "1.prems"(1) True])
    then have "?E ` ?S c = insert (?E c) (?E ` ?S ?c1)" by (simp only: image_insert)
    moreover have "set (to_copy_list ?ps1) = insert (?E c) (set (to_copy_list ps))" by simp
    ultimately have all: "set (to_copy_list ps') = set (to_copy_list ps) \<union> ?E ` ?S c"
      using cs by (simp only: Un_insert_left Un_insert_right)
    have u': "to_upload_list ps' = to_upload_list ps" using u by simp
    show ?thesis
      by (intro exI [of _ ps'] conjI, rule run, rule u', rule l, rule all)
  qed
qed


lemma sort_key_hd:
  assumes "L \<noteq> []"
  shows "hd (sort_key f L) \<in> set L \<and> (\<forall>y \<in> set L. f (hd (sort_key f L)) \<le> f y)"
proof -
  let ?S = "sort_key f L"
  have ne: "?S \<noteq> []" using assms by (metis length_0_conv length_sort)
  then obtain x xs where S: "?S = x # xs" by (cases ?S) auto
  have "sorted (map f ?S)" by simp
  then have "\<forall>y \<in> set xs. f x \<le> f y" unfolding S by simp
  moreover have "set ?S = set L" by simp
  ultimately show ?thesis unfolding S by auto
qed

lemma int_cast_wrap:
  assumes "0 \<le> k" "k < 2147483649" "int_cast (k + 1) \<le> - 2147483648"
  shows "k = 2147483647"
proof (rule ccontr)
  assume "k \<noteq> 2147483647"
  then consider "k < 2147483647" | "k = 2147483648" using assms(2) by linarith
  then show False
  proof cases
    case 1
    then have "int_cast (k + 1) = k + 1" using assms(1) by (intro int_cast_id) simp_all
    with assms(1,3) show ?thesis by simp
  next
    case 2
    with assms(3) show ?thesis by (simp add: int_cast_def)
  qed
qed

text \<open>
  Claim C1, as stated for every planner input, fails on two kinds of input.  First, with
  a maximum part size of 10 and a file of 10 bytes, no untreated area and an upload
  list that holds one part of the first 5 bytes, the planner finds the only area already
  uploaded and plans nothing: the bytes from 5 to 10 are in no part.  Second, with a
  maximum part size of 1 and a file of \<open>2^31 + 1\<close> bytes, both lists empty and copying
  in use, every byte is a part of its own, and the part of byte \<open>2^31 - 1\<close> gets the
  number \<open>2^31\<close>, which the cast to \<open>int\<close> turns into \<open>-2^31\<close>: in the order of
  the part numbers this part comes first, so the ranges do not run from 0 upwards.
\<close>

theorem ExtractUploadPartsFromAllArea_cover_counterexample:
  "ExtractUploadPartsFromAllArea [] 10 10 False
     [\<lparr>uploaded = True, fd = 3, startpos = 0, fp_size = 5, is_copy = False,
       petag = Some \<lparr>ep_etag = None, ep_part_num = 1\<rparr>\<rparr>]
   = Some (True,
       \<lparr>dup_untreated = [],
        ps_upload_list =
          [\<lparr>uploaded = True, fd = 3, startpos = 0, fp_size = 5, is_copy = False,
            petag = Some \<lparr>ep_etag = None, ep_part_num = 1\<rparr>\<rparr>],
        uploaded_iter = 1, to_upload_list = [], to_copy_list = [], to_download_list = [],
        cancel_upload_list = [], wait_upload_complete = False\<rparr>)
   \<and> in_part_number_order (plan_parts
       \<lparr>dup_untreated = [],
        ps_upload_list =
          [\<lparr>uploaded = True, fd = 3, startpos = 0, fp_size = 5, is_copy = False,
            petag = Some \<lparr>ep_etag = None, ep_part_num = 1\<rparr>\<rparr>],
        uploaded_iter = 1, to_upload_list = [], to_copy_list = [], to_download_list = [],
        cancel_upload_list = [], wait_upload_complete = False\<rparr>) = [(0, 5)]
   \<and> \<not> tiles 0 [(0, 5)] 10
   \<and> \<not> covers_once 10 [(0, 5)]
   \<and> map_option fst (ExtractUploadPartsFromAllArea [] 1 2147483649 True []) = Some True
   \<and> hd (in_part_number_order (plan_parts (snd (the
         (ExtractUploadPartsFromAllArea [] 1 2147483649 True []))))) = (2147483647, 1)
   \<and> \<not> tiles 0 (in_part_number_order (plan_parts (snd (the
         (ExtractUploadPartsFromAllArea [] 1 2147483649 True []))))) 2147483649"
proof -
  have "cover_count 7 [(0, 5)] \<noteq> (if (0::int) \<le> 7 \<and> (7::int) < 10 then 1 else 0)"
    by simp
  then have "\<not> covers_once 10 [(0, 5)]" unfolding covers_once_def by blast
  then have short: "ExtractUploadPartsFromAllArea [] 10 10 False
     [\<lparr>uploaded = True, fd = 3, startpos = 0, fp_size = 5, is_copy = False,
       petag = Some \<lparr>ep_etag = None, ep_part_num = 1\<rparr>\<rparr>]
   = Some (True,
       \<lparr>dup_untreated = [],
        ps_upload_list =
          [\<lparr>uploaded = True, fd = 3, startpos = 0, fp_size = 5, is_copy = False,
            petag = Some \<lparr>ep_etag = None, ep_part_num = 1\<rparr>\<rparr>],
        uploaded_iter = 1, to_upload_list = [], to_copy_list = [], to_download_list = [],
        cancel_upload_list = [], wait_upload_complete = False\<rparr>)
   \<and> in_part_number_order (plan_parts
       \<lparr>dup_untreated = [],
        ps_upload_list =
          [\<lparr>uploaded = True, fd = 3, startpos = 0, fp_size = 5, is_copy = False,
            petag = Some \<lparr>ep_etag = None, ep_part_num = 1\<rparr>\<rparr>],
        uploaded_iter = 1, to_upload_list = [], to_copy_list = [], to_download_list = [],
        cancel_upload_list = [], wait_upload_complete = False\<rparr>) = [(0, 5)]
   \<and> \<not> tiles 0 [(0, 5)] 10
   \<and> \<not> covers_once 10 [(0, 5)]"
    by (simp add: ExtractUploadPartsFromAllArea_def plan_loop.simps plan_step_def
        scan_uploaded.simps plan_area_def area_size_def in_part_number_order_def
        plan_parts_def fp_entry_def get_part_number_def)

  let ?fs = "2147483649 :: int"
  let ?ps0 = "\<lparr>dup_untreated = [], ps_upload_list = [], uploaded_iter = 0,
        to_upload_list = [], to_copy_list = [], to_download_list = [],
        cancel_upload_list = [], wait_upload_complete = False\<rparr>"
  let ?E = "\<lambda>k. \<lparr>mp_start = k, mp_size = area_size 1 ?fs k, mp_part_num = int_cast (k div 1 + 1)\<rparr>"
  have d: "dup_untreated ?ps0 = []" "ps_upload_list ?ps0 = []" by simp_all
  from plan_loop_empty [OF zero_less_one d, of ?fs 0]
  obtain ps where run: "plan_loop 1 ?fs True 0 ?ps0 = Some (True, ps)"
    and u: "to_upload_list ps = to_upload_list ?ps0" and l: "ps_upload_list ps = []"
    and cs: "set (to_copy_list ps) = set (to_copy_list ?ps0) \<union>
               ?E ` {k. 0 \<le> k \<and> k < ?fs \<and> (k - 0) mod 1 = 0}"
    by (elim exE conjE)
  have R: "ExtractUploadPartsFromAllArea [] 1 ?fs True [] = Some (True, ps)"
    using run by (simp add: ExtractUploadPartsFromAllArea_def)
  let ?L = "plan_parts ps"
  let ?F = "\<lambda>k::int. (int_cast (k + 1), k, 1::int)"
  have L: "set ?L = ?F ` {k. 0 \<le> k \<and> k < ?fs}"
  proof -
    have "set ?L = mp_entry ` set (to_copy_list ps)" using u l by (simp add: plan_parts_def)
    also have "\<dots> = (mp_entry \<circ> ?E) ` {k. 0 \<le> k \<and> k < ?fs}"
      unfolding cs by (simp add: image_comp)
    also have "mp_entry \<circ> ?E = (\<lambda>k. (int_cast (k + 1), k, area_size 1 ?fs k))"
      by (rule ext) (simp add: mp_entry_def)
    also have "(\<lambda>k. (int_cast (k + 1), k, area_size 1 ?fs k)) ` {k. 0 \<le> k \<and> k < ?fs}
                = ?F ` {k. 0 \<le> k \<and> k < ?fs}"
      by (rule image_cong) (simp_all add: area_size_def)
    finally show ?thesis .
  qed
  have "(2147483647::int) \<in> {k. 0 \<le> k \<and> k < ?fs}" by simp
  then have big: "?F 2147483647 \<in> set ?L" unfolding L by (rule imageI)
  then have ne: "?L \<noteq> []" by auto
  note h = sort_key_hd [OF ne, of fst]
  from h have "hd (sort_key fst ?L) \<in> ?F ` {k. 0 \<le> k \<and> k < ?fs}" unfolding L by simp
  then obtain k where k: "hd (sort_key fst ?L) = ?F k" "0 \<le> k" "k < ?fs" by auto
  have "fst (hd (sort_key fst ?L)) \<le> fst (?F 2147483647)" using h big by blast
  then have "int_cast (k + 1) \<le> - 2147483648" unfolding k(1) by (simp add: int_cast_def)
  from int_cast_wrap [OF k(2,3) this] have k': "k = 2147483647" .
  have S: "sort_key fst ?L \<noteq> []" using ne by (metis length_0_conv length_sort)
  have hd: "hd (in_part_number_order ?L) = (2147483647, 1)"
    unfolding in_part_number_order_def using S k(1) k' by (simp add: hd_map)
  have "in_part_number_order ?L \<noteq> []" unfolding in_part_number_order_def using S by simp
  then obtain rs where "in_part_number_order ?L = (2147483647, 1) # rs"
    using hd by (cases "in_part_number_order ?L") auto
  then have nt: "\<not> tiles 0 (in_part_number_order ?L) ?fs" by simp
  from R hd nt have "map_option fst (ExtractUploadPartsFromAllArea [] 1 2147483649 True []) = Some True
   \<and> hd (in_part_number_order (plan_parts (snd (the
         (ExtractUploadPartsFromAllArea [] 1 2147483649 True []))))) = (2147483647, 1)
   \<and> \<not> tiles 0 (in_part_number_order (plan_parts (snd (the
         (ExtractUploadPartsFromAllArea [] 1 2147483649 True []))))) 2147483649"
    by simp
  with short show ?thesis by (simp only: simp_thms)
qed

text \<open>
  Claim C1, amended.  Let the maximum part size and the file size be positive, let the
  file have at most \<open>2^31 - 1\<close> areas (its size is at most \<open>2^31 - 1\<close> times the
  maximum part size), and let every part of the upload list be one area of the file
  with the number of that area, in the order of the offsets (\<open>slab_aligned\<close>).  Then,
  for every untreated list and either value of
  \<open>use_copy\<close>, the planner returns \<open>true\<close>, and the byte ranges of \<open>to_upload\<close>,
  \<open>to_copy\<close> and the parts left in the upload list, taken in the order of their part
  numbers, are non-empty and lie end to end from 0 to the file size: they cover
  \<open>[0, file_size)\<close> once, with no gap and no overlap.
\<close>

theorem ExtractUploadPartsFromAllArea_tiles:
  assumes m: "0 < max_mp_size" and fs: "0 < file_size"
    and al: "slab_aligned max_mp_size file_size ul"
    and bd: "file_size \<le> max_mp_size * 2147483647"
  shows "\<exists>ps. ExtractUploadPartsFromAllArea untreated_list max_mp_size file_size use_copy ul
                 = Some (True, ps)
             \<and> tiles 0 (in_part_number_order (plan_parts ps)) file_size"
proof -
  let ?ps0 = "\<lparr>dup_untreated = untreated_list, ps_upload_list = ul, uploaded_iter = 0,
        to_upload_list = [], to_copy_list = [], to_download_list = [],
        cancel_upload_list = [], wait_upload_complete = False\<rparr>"
  have "\<forall>q \<in> set ul. 0 \<le> startpos q"
    using al by (simp add: slab_aligned_def list_all_iff slab_part_def)
  then have "plan_inv max_mp_size file_size 0 ?ps0"
    using al fs by (simp add: plan_inv_def area_inv_def covers_once_def)
  from plan_loop_inv [OF m this bd, of use_copy]
  obtain ps where r: "plan_loop max_mp_size file_size use_copy 0 ?ps0 = Some (True, ps)"
    and i: "plan_inv max_mp_size file_size file_size ps" by blast
  have "tiles 0 (in_part_number_order (plan_parts ps)) file_size"
    using area_inv_final [OF m fs] i by (simp add: plan_inv_def plan_parts_def)
  with r show ?thesis by (simp add: ExtractUploadPartsFromAllArea_def)
qed

theorem ExtractUploadPartsFromAllArea_tiles_witness:
  "(0::int) < 10 \<and> (0::int) < 30
   \<and> slab_aligned 10 30
       [\<lparr>uploaded = True, fd = 3, startpos = 0, fp_size = 10, is_copy = False,
         petag = Some \<lparr>ep_etag = None, ep_part_num = 1\<rparr>\<rparr>]
   \<and> (30::int) \<le> 10 * 2147483647
   \<and> (\<exists>ps. ExtractUploadPartsFromAllArea [\<lparr>ut_start = 12, ut_size = 3\<rparr>] 10 30 True
              [\<lparr>uploaded = True, fd = 3, startpos = 0, fp_size = 10, is_copy = False,
                petag = Some \<lparr>ep_etag = None, ep_part_num = 1\<rparr>\<rparr>] = Some (True, ps)
          \<and> tiles 0 (in_part_number_order (plan_parts ps)) 30)"
proof -
  have a: "slab_aligned 10 30
       [\<lparr>uploaded = True, fd = 3, startpos = 0, fp_size = 10, is_copy = False,
         petag = Some \<lparr>ep_etag = None, ep_part_num = 1\<rparr>\<rparr>]"
    by (simp add: slab_aligned_def slab_part_def area_size_def get_part_number_def)
  from ExtractUploadPartsFromAllArea_tiles [OF _ _ a, of "[\<lparr>ut_start = 12, ut_size = 3\<rparr>]" True] a
  show ?thesis by simp
qed

section \<open>Properties of the upload coordinator\<close>

text \<open>
  Claim C5.  \<open>AppendUploadPart\<close> succeeds exactly if an upload id is set and \<open>start\<close>
  is the end of the last part of the upload list (0 for an empty list).  On success the
  list is the old list followed by the new part, which has the given start, size and
  copy flag and the part number \<open>length + 1\<close>; on failure, so in particular on a start
  that does not continue the list, the object is as it was.
\<close>

theorem AppendUploadPart_contiguous:
  assumes "AppendUploadPart start sz is_cp st = (ok, ppetag, st')"
  shows "(ok \<longleftrightarrow> upload_id st \<noteq> [] \<and> start = next_start_pos (upload_list st))
       \<and> (ok \<longrightarrow> length (upload_list st') = length (upload_list st) + 1
               \<and> butlast (upload_list st') = upload_list st
               \<and> get_part_number (last (upload_list st')) = int (length (upload_list st)) + 1
               \<and> startpos (last (upload_list st')) = start
               \<and> fp_size (last (upload_list st')) = sz
               \<and> is_copy (last (upload_list st')) = is_cp
               \<and> upload_id st' = upload_id st)
       \<and> (\<not> ok \<longrightarrow> st' = st)"
proof (cases "upload_id st \<noteq> [] \<and> start = next_start_pos (upload_list st)")
  case True
  then show ?thesis
    using assms
    by (auto simp: AppendUploadPart_def IsUploadingHasLock_def next_start_pos_def Let_def
        get_part_number_def)
next
  case False
  then have "AppendUploadPart start sz is_cp st = (False, None, st)"
    by (auto simp: AppendUploadPart_def IsUploadingHasLock_def next_start_pos_def Let_def)
  with assms False show ?thesis by simp
qed

theorem AppendUploadPart_contiguous_witness:
  "AppendUploadPart 10 5 True
     \<lparr>pseudo_fd = 1, physical_fd = 3, flags = 2, upload_id = ''id'', upload_fd = 4,
      upload_list =
        [\<lparr>uploaded = False, fd = 3, startpos = 0, fp_size = 10, is_copy = False,
          petag = Some \<lparr>ep_etag = None, ep_part_num = 1\<rparr>\<rparr>],
      etag_entities = [\<lparr>ep_etag = None, ep_part_num = 1\<rparr>],
      instruct_count = 0, last_result = 0, uploaded_sem = 0\<rparr>
   = (True, Some \<lparr>ep_etag = None, ep_part_num = 2\<rparr>,
      \<lparr>pseudo_fd = 1, physical_fd = 3, flags = 2, upload_id = ''id'', upload_fd = 4,
       upload_list =
         [\<lparr>uploaded = False, fd = 3, startpos = 0, fp_size = 10, is_copy = False,
           petag = Some \<lparr>ep_etag = None, ep_part_num = 1\<rparr>\<rparr>,
          \<lparr>uploaded = False, fd = 3, startpos = 10, fp_size = 5, is_copy = True,
           petag = Some \<lparr>ep_etag = None, ep_part_num = 2\<rparr>\<rparr>],
       etag_entities = [\<lparr>ep_etag = None, ep_part_num = 1\<rparr>, \<lparr>ep_etag = None, ep_part_num = 2\<rparr>],
       instruct_count = 0, last_result = 0, uploaded_sem = 0\<rparr>)
   \<and> (True \<longleftrightarrow> ''id'' \<noteq> [] \<and> (10::int) = next_start_pos
        [\<lparr>uploaded = False, fd = 3, startpos = 0, fp_size = 10, is_copy = False,
          petag = Some \<lparr>ep_etag = None, ep_part_num = 1\<rparr>\<rparr>])
   \<and> get_part_number \<lparr>uploaded = False, fd = 3, startpos = 10, fp_size = 5, is_copy = True,
           petag = Some \<lparr>ep_etag = None, ep_part_num = 2\<rparr>\<rparr> = 2"
proof -
  let ?st = "\<lparr>pseudo_fd = 1, physical_fd = 3, flags = 2, upload_id = ''id'', upload_fd = 4,
      upload_list =
        [\<lparr>uploaded = False, fd = 3, startpos = 0, fp_size = 10, is_copy = False,
          petag = Some \<lparr>ep_etag = None, ep_part_num = 1\<rparr>\<rparr>],
      etag_entities = [\<lparr>ep_etag = None, ep_part_num = 1\<rparr>],
      instruct_count = 0, last_result = 0, uploaded_sem = 0\<rparr>"
  obtain ok pe st' where r: "AppendUploadPart 10 5 True ?st = (ok, pe, st')"
    by (cases "AppendUploadPart 10 5 True ?st")
  from AppendUploadPart_contiguous [OF r] r show ?thesis
    by (auto simp: AppendUploadPart_def IsUploadingHasLock_def next_start_pos_def Let_def
        get_part_number_def)
qed

lemma ceil_align_code:
  fixes x m :: int
  assumes "0 < m"
  shows "((x div m) + (if 0 < x mod m then 1 else 0)) * m = ceil_align x m"
proof -
  have x: "x = m * (x div m) + x mod m" by simp
  have r: "0 \<le> x mod m" "x mod m < m" using assms by simp_all
  show ?thesis
  proof (cases "0 < x mod m")
    case False
    with r have z: "x mod m = 0" by simp
    have "(x + m - 1) div m = (m - 1 + x) div m" by (simp add: algebra_simps)
    also have "\<dots> = (m - 1) div m + x div m + ((m - 1) mod m + x mod m) div m"
      by (rule div_add1_eq)
    also have "\<dots> = x div m" using assms z by simp
    finally show ?thesis using False by (simp add: ceil_align_def)
  next
    case True
    have "(x + m - 1) div m = ((x mod m + m - 1) + m * (x div m)) div m"
      using x by (metis add.commute add_diff_eq add.assoc)
    also have "\<dots> = (x mod m + m - 1) div m + x div m" using assms by simp
    also have "(x mod m + m - 1) div m = 1"
    proof (rule int_div_pos_eq [of _ _ 1 "x mod m - 1"])
      show "x mod m + m - 1 = m * 1 + (x mod m - 1)" by simp
      show "0 \<le> x mod m - 1" using True by simp
      show "x mod m - 1 < m" using r(2) by simp
    qed
    finally show ?thesis using True by (simp add: ceil_align_def)
  qed
qed

declare upload_areas.simps [simp del]

lemma cancel_overlapped_size:
  "cancel_overlapped a z ul kept cancel = (kept', cancel', z') \<Longrightarrow> z \<le> z'"
proof (induction a z ul kept cancel rule: cancel_overlapped.induct)
  case (1 a z kept cancel)
  then show ?case by simp
next
  case (2 a z p ul kept cancel)
  then show ?case by (auto split: if_splits)
qed

lemma upload_areas_nonempty:
  "0 < m \<Longrightarrow> m \<le> z \<Longrightarrow> upload_areas m a z tu \<noteq> []"
proof (induction m a z tu rule: upload_areas.induct)
  case (1 m a z tu)
  show ?case
  proof (cases "m \<le> z - m")
    case True
    with "1.IH" "1.prems" show ?thesis by (subst upload_areas.simps) simp
  next
    case False
    have "upload_areas m (a + m) (z - m)
            (tu @ [\<lparr>mp_start = a, mp_size = m, mp_part_num = int_cast (a div m + 1)\<rparr>])
          = tu @ [\<lparr>mp_start = a, mp_size = m, mp_part_num = int_cast (a div m + 1)\<rparr>]"
      using False by (subst upload_areas.simps) simp
    with "1.prems" show ?thesis by (subst upload_areas.simps) simp
  qed
qed

text \<open>
  Claim C6.  Let the handle be open, the multipart size \<open>m\<close> positive and the last
  untreated area \<open>(s, z)\<close> non-empty.  Unless the area reaches beyond its start rounded
  up to a multiple of \<open>m\<close> and the part of it from there on, rounded down to a multiple
  of \<open>m\<close>, is at least \<open>m\<close>, the boundary flush returns 0, sets up no upload request
  and leaves the object (so the upload list) as it is; whenever a request is set up the
  two conditions hold.  When they hold, the area handed to
  \<open>ExtractUploadPartsFromUntreatedArea\<close> yields at least one part.  Called by itself
  with an area whose aligned size is below \<open>m\<close>, that function returns true with empty
  lists and the upload list as it is.
\<close>

theorem UploadBoundaryLastUntreatedArea_aligned_only:
  assumes h: "env_path env" "physical_fd st \<noteq> - 1" "pseudo_fd st \<noteq> - 1"
    and u: "env_pfdent env = Some (True, s, z)" "0 \<le> s" "0 < z"
    and m: "0 < m" "env_multipart_size env = m"
  shows "(\<not> (ceil_align s m < s + z \<and> m \<le> ((s + z - ceil_align s m) div m) * m)
            \<longrightarrow> UploadBoundaryLastUntreatedArea env st = Some (0, st, [], None))
       \<and> (UploadBoundaryLastUntreatedArea env st = Some (r, st', requested, repl)
            \<longrightarrow> requested \<noteq> []
            \<longrightarrow> ceil_align s m < s + z \<and> m \<le> ((s + z - ceil_align s m) div m) * m)
       \<and> (ceil_align s m < s + z \<and> m \<le> ((s + z - ceil_align s m) div m) * m
            \<longrightarrow> (\<exists>to_upload cancelled ul.
                   ExtractUploadPartsFromUntreatedArea (ceil_align s m)
                     (((s + z - ceil_align s m) div m) * m) [] [] m (upload_list st)
                     = Some (True, to_upload, cancelled, ul) \<and> to_upload \<noteq> []))
       \<and> (0 \<le> us \<and> 0 < uz \<and> uz + (us - (us div m) * m) < m
            \<longrightarrow> ExtractUploadPartsFromUntreatedArea us uz tu0 tc0 m ul0
                  = Some (True, [], [], ul0))"
proof -
  let ?a = "ceil_align s m"
  let ?z = "((s + z - ?a) div m) * m"
  let ?cond = "?a < s + z \<and> m \<le> ?z"
  note ca = ceil_align_code [OF m(1), of s]
  have zero: "?z = 0 \<or> m \<le> ?z" if "?a < s + z"
  proof -
    have "0 \<le> (s + z - ?a) div m" using that m(1) by (simp add: pos_imp_zdiv_nonneg_iff)
    then have "(s + z - ?a) div m = 0 \<or> 1 \<le> (s + z - ?a) div m" by linarith
    then show ?thesis
    proof
      assume "(s + z - ?a) div m = 0" then show ?thesis by simp
    next
      assume "1 \<le> (s + z - ?a) div m"
      then have "1 * m \<le> ((s + z - ?a) div m) * m" using m(1) by (intro mult_right_mono) simp_all
      then show ?thesis by simp
    qed
  qed
  have early: "UploadBoundaryLastUntreatedArea env st = Some (0, st, [], None)" if "\<not> ?cond"
  proof (cases "?a < s + z")
    case False
    then show ?thesis
      using h u m ca by (simp add: UploadBoundaryLastUntreatedArea_def Let_def)
  next
    case True
    with that zero have "?z = 0" by auto
    then show ?thesis
      using h u m ca True by (simp add: UploadBoundaryLastUntreatedArea_def Let_def)
  qed
  have requested: "?cond"
    if "UploadBoundaryLastUntreatedArea env st = Some (r, st', requested, repl)" "requested \<noteq> []"
  proof (rule ccontr)
    assume "\<not> ?cond"
    from early [OF this] that show False by simp
  qed
  have parts: "\<exists>to_upload cancelled ul.
      ExtractUploadPartsFromUntreatedArea ?a ?z [] [] m (upload_list st)
        = Some (True, to_upload, cancelled, ul) \<and> to_upload \<noteq> []" if c: "?cond"
  proof -
    define zz where "zz = ((s + z - ?a) div m) * m"
    have zz: "0 < zz" "\<not> zz < m" using c m(1) by (simp_all add: zz_def)
    have a0: "0 \<le> ?a"
      using u(2) m(1) by (simp add: ceil_align_def pos_imp_zdiv_nonneg_iff)
    have am: "(?a div m) * m = ?a" using m(1) by (simp add: ceil_align_def)
    obtain kept cancelled z2 where co: "cancel_overlapped ?a zz (upload_list st) [] [] = (kept, cancelled, z2)"
      by (cases "cancel_overlapped ?a zz (upload_list st) [] []")
    from cancel_overlapped_size [OF co] zz have "m \<le> z2" by simp
    then have "upload_areas m ?a z2 [] \<noteq> []" by (rule upload_areas_nonempty [OF m(1)])
    then have "\<exists>to_upload cancelled ul.
      ExtractUploadPartsFromUntreatedArea ?a zz [] [] m (upload_list st)
        = Some (True, to_upload, cancelled, ul) \<and> to_upload \<noteq> []"
      using zz m(1) a0 am co by (simp add: ExtractUploadPartsFromUntreatedArea_def Let_def)
    then show ?thesis by (simp only: zz_def)
  qed
  have direct: "ExtractUploadPartsFromUntreatedArea us uz tu0 tc0 m ul0 = Some (True, [], [], ul0)"
    if "0 \<le> us \<and> 0 < uz \<and> uz + (us - (us div m) * m) < m"
    using that m(1) by (simp add: ExtractUploadPartsFromUntreatedArea_def Let_def)
  show ?thesis using early requested parts direct by blast
qed

theorem UploadBoundaryLastUntreatedArea_aligned_only_witness:
  "env_path \<lparr>env_path = True, env_pfdent = Some (True, 3, 16), env_multipart_size = 10,
       env_pre_request = (0, ''id''), env_dup = 4, env_lseek = 0, env_fstat = 0,
       env_part_request = (\<lambda>part. 0)\<rparr>
   \<and> \<not> (ceil_align 3 10 < 3 + 16 \<and> 10 \<le> ((3 + 16 - ceil_align 3 10) div 10) * 10)
   \<and> UploadBoundaryLastUntreatedArea
       \<lparr>env_path = True, env_pfdent = Some (True, 3, 16), env_multipart_size = 10,
        env_pre_request = (0, ''id''), env_dup = 4, env_lseek = 0, env_fstat = 0,
        env_part_request = (\<lambda>part. 0)\<rparr>
       \<lparr>pseudo_fd = 1, physical_fd = 3, flags = 2, upload_id = [], upload_fd = - 1,
        upload_list = [], etag_entities = [], instruct_count = 0, last_result = 0,
        uploaded_sem = 0\<rparr>
     = Some (0,
         \<lparr>pseudo_fd = 1, physical_fd = 3, flags = 2, upload_id = [], upload_fd = - 1,
          upload_list = [], etag_entities = [], instruct_count = 0, last_result = 0,
          uploaded_sem = 0\<rparr>, [], None)
   \<and> ExtractUploadPartsFromUntreatedArea 12 7 [] [] 10 [] = Some (True, [], [], [])"
proof -
  let ?env = "\<lparr>env_path = True, env_pfdent = Some (True, 3, 16), env_multipart_size = 10,
       env_pre_request = (0, ''id''), env_dup = 4, env_lseek = 0, env_fstat = 0,
       env_part_request = (\<lambda>part. 0)\<rparr>"
  let ?st = "\<lparr>pseudo_fd = 1, physical_fd = 3, flags = 2, upload_id = [], upload_fd = - 1,
        upload_list = [], etag_entities = [], instruct_count = 0, last_result = 0,
        uploaded_sem = 0\<rparr>"
  have h: "env_path ?env" "physical_fd ?st \<noteq> - 1" "pseudo_fd ?st \<noteq> - 1"
    "env_pfdent ?env = Some (True, 3, 16)" "(0::int) \<le> 3" "(0::int) < 16" "(0::int) < 10"
    "env_multipart_size ?env = 10"
    by simp_all
  have c: "\<not> (ceil_align 3 10 < 3 + 16 \<and> 10 \<le> ((3 + 16 - ceil_align 3 10) div 10) * 10)"
    by (simp add: ceil_align_def)
  from UploadBoundaryLastUntreatedArea_aligned_only
         [OF h, of 0 ?st "[]" None 12 7 "[]" "[]" "[]"] c h(1)
  show ?thesis by simp
qed


subsection \<open>The sizes of the planned parts\<close>













subsection \<open>The untreated areas of the current area\<close>

declare extract_cur_untreated.simps [simp del]

lemma untreated_sorted_Cons:
  "untreated_sorted (u # us) \<longleftrightarrow>
     0 < ut_size u \<and> (\<forall>v \<in> set us. ut_start u + ut_size u \<le> ut_start v) \<and> untreated_sorted us"
  by (auto simp: untreated_sorted_def)

lemma untreated_at_Cons:
  "untreated_at x (u # us) \<longleftrightarrow>
     (ut_start u \<le> x \<and> x < ut_start u + ut_size u) \<or> untreated_at x us"
  by (auto simp: untreated_at_def)

lemma untreated_sorted_after:
  assumes "untreated_sorted (u # us)" "untreated_at x us"
  shows "ut_start u + ut_size u \<le> x"
  using assms by (auto simp: untreated_sorted_Cons untreated_at_def)

lemma extract_cur_untreated_sorted:
  assumes "0 \<le> sz" "untreated_sorted dup" "extract_cur_untreated c sz dup acc = (cu, dup')"
  shows "untreated_sorted dup'
       \<and> (\<forall>x. c + sz \<le> x \<longrightarrow> untreated_at x dup \<longrightarrow> untreated_at x dup')
       \<and> (acc \<noteq> [] \<or> (\<exists>x. c \<le> x \<and> x < c + sz \<and> untreated_at x dup) \<longrightarrow> cu \<noteq> [])"
  using assms
proof (induction c sz dup acc arbitrary: cu dup' rule: extract_cur_untreated.induct)
  case (1 c sz acc)
  then show ?case by (auto simp: untreated_at_def extract_cur_untreated.simps(1))
next
  case (2 c sz u us acc)
  let ?end = "ut_start u + ut_size u"
  note unfold = extract_cur_untreated.simps(2) [of c sz u us acc]
  from "2.prems"(2) have upos: "0 < ut_size u"
    and later: "\<forall>v \<in> set us. ?end \<le> ut_start v" and sus: "untreated_sorted us"
    by (simp_all add: untreated_sorted_Cons)
  show ?case
  proof (cases "untreated_overlaps c sz u")
    case ov: True
    let ?ts = "if ut_start u < c then c else ut_start u"
    let ?tz = "if ut_start u < c then ut_size u - (c - ut_start u) else ut_size u"
    have tend: "?ts + ?tz = ?end" by simp
    show ?thesis
    proof (cases "?ts + ?tz \<le> c + sz")
      case within: True
      let ?acc = "acc @ [\<lparr>ut_start = ?ts, ut_size = ?tz\<rparr>]"
      have r: "extract_cur_untreated c sz us ?acc = (cu, dup')"
        using "2.prems"(3) ov within by (simp add: unfold Let_def)
      from "2.IH"(1) [OF ov refl refl within "2.prems"(1) sus r]
      have ih: "untreated_sorted dup'"
        "\<forall>x. c + sz \<le> x \<longrightarrow> untreated_at x us \<longrightarrow> untreated_at x dup'" "cu \<noteq> []"
        by simp_all
      have "untreated_at x dup'" if "c + sz \<le> x" "untreated_at x (u # us)" for x
        using that ih(2) within tend by (auto simp: untreated_at_Cons)
      with ih show ?thesis by blast
    next
      case beyond: False
      let ?tz2 = "(c + sz) - ?ts"
      let ?u' = "\<lparr>ut_start = ?ts + ?tz2, ut_size = ?end - (c + sz)\<rparr>"
      let ?acc = "acc @ [\<lparr>ut_start = ?ts, ut_size = ?tz2\<rparr>]"
      have r: "extract_cur_untreated c sz (?u' # us) ?acc = (cu, dup')"
        using "2.prems"(3) ov beyond by (simp add: unfold Let_def)
      have b2: "c + sz < ?end" using beyond by (simp split: if_splits)
      have su': "untreated_sorted (?u' # us)"
        using b2 later sus by (simp add: untreated_sorted_Cons)
      from "2.IH"(2) [OF ov refl refl beyond refl "2.prems"(1) su' r]
      have ih: "untreated_sorted dup'"
        "\<forall>x. c + sz \<le> x \<longrightarrow> untreated_at x (?u' # us) \<longrightarrow> untreated_at x dup'" "cu \<noteq> []"
        by simp_all
      have "untreated_at x dup'" if "c + sz \<le> x" "untreated_at x (u # us)" for x
      proof -
        have "untreated_at x (?u' # us)" using that by (auto simp: untreated_at_Cons)
        with ih(2) that(1) show ?thesis by blast
      qed
      with ih show ?thesis by blast
    qed
  next
    case nov: False
    show ?thesis
    proof (cases "c + sz - 1 < ut_start u")
      case True
      then have r: "cu = acc" "dup' = u # us" using "2.prems"(3) nov by (simp_all add: unfold)
      have "\<not> (c \<le> x \<and> x < c + sz \<and> untreated_at x (u # us))" for x
      proof
        assume x: "c \<le> x \<and> x < c + sz \<and> untreated_at x (u # us)"
        then have nu: "\<not> ut_start u \<le> x" using True by simp
        with x have "untreated_at x us" by (simp add: untreated_at_Cons)
        then obtain v where v: "v \<in> set us" "ut_start v \<le> x" by (auto simp: untreated_at_def)
        with later have "ut_start u + ut_size u \<le> x" by force
        with upos nu show False by simp
      qed
      then show ?thesis using r "2.prems"(2) by blast
    next
      case False
      have r: "extract_cur_untreated c sz us acc = (cu, dup')"
        using "2.prems"(3) nov False by (simp add: unfold)
      from "2.IH"(3) [OF nov False "2.prems"(1) sus r]
      have ih: "untreated_sorted dup'"
        "\<forall>x. c + sz \<le> x \<longrightarrow> untreated_at x us \<longrightarrow> untreated_at x dup'"
        "acc \<noteq> [] \<or> (\<exists>x. c \<le> x \<and> x < c + sz \<and> untreated_at x us) \<longrightarrow> cu \<noteq> []"
        by simp_all
      have endc: "?end \<le> c" using nov False by (simp add: untreated_overlaps_def)
      have a: "untreated_at x us" if "c \<le> x" "untreated_at x (u # us)" for x
        using that endc by (auto simp: untreated_at_Cons)
      have "untreated_at x dup'" if "c + sz \<le> x" "untreated_at x (u # us)" for x
      proof -
        have "c \<le> x" using that(1) "2.prems"(1) by simp
        then have "untreated_at x us" using a that(2) by blast
        with ih(2) that(1) show ?thesis by blast
      qed
      moreover have "cu \<noteq> []"
        if "acc \<noteq> [] \<or> (\<exists>x. c \<le> x \<and> x < c + sz \<and> untreated_at x (u # us))"
        using that ih(3) a by blast
      ultimately show ?thesis using ih(1) by blast
    qed
  qed
qed


subsection \<open>Uploaded parts in areas with untreated data\<close>

lemma parts_in_areas_distinct:
  assumes "parts_in_areas m fs ul"
  shows "distinct ul"
proof -
  have "sorted_wrt (\<lambda>a b. startpos a < startpos b) ul"
    using assms by (simp add: parts_in_areas_def)
  then have "sorted_wrt (\<lambda>a b. a \<noteq> b) ul"
    by (rule sorted_wrt_mono_rel [rotated]) auto
  then show ?thesis by (simp add: distinct_conv_nth sorted_wrt_iff_nth_less nat_neq_iff)
       (metis nat_neq_iff)
qed

lemma erase_nth:
  assumes "distinct ul" "i < length ul"
  shows "ul ! i \<notin> set (take i ul @ drop (Suc i) ul)"
    and "set (take i ul @ drop (Suc i) ul) \<union> {ul ! i} = set ul"
proof -
  have eq: "ul = take i ul @ ul ! i # drop (Suc i) ul"
    using assms(2) by (simp add: id_take_nth_drop)
  have "distinct (take i ul @ ul ! i # drop (Suc i) ul)" using assms(1) eq by simp
  then show "ul ! i \<notin> set (take i ul @ drop (Suc i) ul)" by auto
  have "set ul = set (take i ul @ ul ! i # drop (Suc i) ul)" using eq by simp
  then show "set (take i ul @ drop (Suc i) ul) \<union> {ul ! i} = set ul" by auto
qed

lemma plan_area_None_fields:
  assumes "ps' = plan_area uc c sz n cu None ps"
  shows "ps_upload_list ps' = ps_upload_list ps" "cancel_upload_list ps' = cancel_upload_list ps"
    "wait_upload_complete ps' = wait_upload_complete ps" "uploaded_iter ps' = uploaded_iter ps"
    "dup_untreated ps' = dup_untreated ps" "set (to_upload_list ps) \<subseteq> set (to_upload_list ps')"
  using assms by (auto simp: plan_area_def Let_def)

lemma parts_in_areas_erase:
  assumes "parts_in_areas m fs ul"
  shows "parts_in_areas m fs (take i ul @ drop (Suc i) ul)"
proof -
  have "sorted_wrt (\<lambda>a b. startpos a < startpos b) (take i ul @ drop i ul)"
    using assms by (simp add: parts_in_areas_def)
  then have cross: "\<forall>x \<in> set (take i ul). \<forall>y \<in> set (drop i ul). startpos x < startpos y"
    and t: "sorted_wrt (\<lambda>a b. startpos a < startpos b) (take i ul)"
    unfolding sorted_wrt_append by auto
  have d: "sorted_wrt (\<lambda>a b. startpos a < startpos b) (drop (Suc i) ul)"
    using assms by (simp add: parts_in_areas_def sorted_wrt_drop)
  have sub: "set (drop (Suc i) ul) \<subseteq> set (drop i ul)"
    by (rule set_drop_subset_set_drop) simp
  have "sorted_wrt (\<lambda>a b. startpos a < startpos b) (take i ul @ drop (Suc i) ul)"
    unfolding sorted_wrt_append using t d cross sub by blast
  moreover have "list_all (part_in_area m fs) (take i ul @ drop (Suc i) ul)"
    using assms unfolding parts_in_areas_def list_all_iff
    by (auto dest: in_set_takeD in_set_dropD)
  ultimately show ?thesis by (simp add: parts_in_areas_def)
qed

lemma part_at_iterator:
  assumes m: "0 < m" and c: "c < fs" and iinv: "iter_inv m fs c ps"
    and pend: "p \<in> set (drop (uploaded_iter ps) (ps_upload_list ps))"
    and lt: "startpos p < c + area_size m fs c"
  shows "uploaded_iter ps < length (ps_upload_list ps)
       \<and> ps_upload_list ps ! uploaded_iter ps = p \<and> startpos p = c"
proof -
  let ?ul = "ps_upload_list ps"
  let ?it = "uploaded_iter ps"
  from iinv c have cm: "c mod m = 0" and al: "parts_in_areas m fs ?ul"
    and ge: "\<forall>j. ?it \<le> j \<and> j < length ?ul \<longrightarrow> c \<le> startpos (?ul ! j)"
    by (auto simp: iter_inv_def)
  from pend obtain k where k: "k < length (drop ?it ?ul)" "drop ?it ?ul ! k = p"
    by (auto simp: in_set_conv_nth)
  then have j: "?it + k < length ?ul" "?ul ! (?it + k) = p" by simp_all
  have cp: "c \<le> startpos p" using ge j by force
  have "\<not> c < startpos p"
    using beyond_area [OF m cm c al j(1)] j(2) lt by auto
  with cp have eq: "startpos p = c" by simp
  have "k = 0"
  proof (rule ccontr)
    assume "k \<noteq> 0"
    then have "startpos (?ul ! ?it) < startpos (?ul ! (?it + k))"
      using al j(1) by (simp add: parts_in_areas_def sorted_wrt_iff_nth_less)
    moreover have "c \<le> startpos (?ul ! ?it)" using ge j(1) by simp
    ultimately show False using j(2) eq by simp
  qed
  with j eq show ?thesis by simp
qed

lemma plan_step_iter:
  assumes m: "0 < m" and c: "c < fs" and iinv: "iter_inv m fs c ps"
  shows "\<exists>ps'. plan_step m fs uc c ps = Some ps' \<and> iter_inv m fs (c + area_size m fs c) ps'"
proof -
  let ?sz = "area_size m fs c"
  let ?n = "int_cast (c div m + 1)"
  let ?ul = "ps_upload_list ps"
  let ?it = "uploaded_iter ps"
  obtain cu dup where ex: "extract_cur_untreated c ?sz (dup_untreated ps) [] = (cu, dup)"
    by (cases "extract_cur_untreated c ?sz (dup_untreated ps) []")
  from iinv c have c0: "0 \<le> c" and cm: "c mod m = 0" and al: "parts_in_areas m fs ?ul"
    and it: "?it \<le> length ?ul"
    and ge: "\<forall>j. ?it \<le> j \<and> j < length ?ul \<longrightarrow> c \<le> startpos (?ul ! j)"
    by (auto simp: iter_inv_def)
  note scan = scan_uploaded_aligned [OF m cm c al it ge]
  note nxt = next_area [OF m c c0 cm]
  show ?thesis
  proof (cases "?it < length ?ul \<and> startpos (?ul ! ?it) = c")
    case hit: True
    have sc: "scan_uploaded ?ul c ?sz ?it None = Some (Suc ?it, Some ?it)"
      using scan hit by simp
    have after: "\<forall>j. Suc ?it \<le> j \<and> j < length ?ul \<longrightarrow> c + ?sz \<le> startpos (?ul ! j)"
      using after_hit [OF m cm c al] hit by blast
    show ?thesis
    proof (cases "cu = []")
      case True
      have ps': "plan_step m fs uc c ps = Some (ps\<lparr>dup_untreated := dup, uploaded_iter := Suc ?it\<rparr>)"
        using ex sc True by (simp add: plan_step_def plan_area_def)
      moreover have "iter_inv m fs (c + ?sz) (ps\<lparr>dup_untreated := dup, uploaded_iter := Suc ?it\<rparr>)"
        unfolding iter_inv_def using nxt al hit after by simp
      ultimately show ?thesis by simp
    next
      case False
      let ?ul' = "take ?it ?ul @ drop (Suc ?it) ?ul"
      let ?ps' = "plan_area uc c ?sz ?n cu (Some ?it)
                    (ps\<lparr>dup_untreated := dup, uploaded_iter := Suc ?it\<rparr>)"
      have ps': "plan_step m fs uc c ps = Some ?ps'"
        using ex sc by (simp add: plan_step_def)
      have f: "ps_upload_list ?ps' = ?ul'" "uploaded_iter ?ps' = ?it"
        using False by (simp_all add: plan_area_def)
      have ge': "\<forall>j. ?it \<le> j \<and> j < length ?ul' \<longrightarrow> c + ?sz \<le> startpos (?ul' ! j)"
      proof (intro allI impI)
        fix j assume j: "?it \<le> j \<and> j < length ?ul'"
        then have "?ul' ! j = ?ul ! (Suc j)" using hit by (simp add: nth_append min_def)
        moreover have "Suc j < length ?ul" using j hit by auto
        ultimately show "c + ?sz \<le> startpos (?ul' ! j)" using after j by simp
      qed
      have "?it \<le> length ?ul'" using hit by auto
      then have "iter_inv m fs (c + ?sz) ?ps'"
        unfolding iter_inv_def f using nxt parts_in_areas_erase [OF al, of ?it] ge' by simp
      with ps' show ?thesis by simp
    qed
  next
    case miss: False
    have sc: "scan_uploaded ?ul c ?sz ?it None = Some (?it, None)"
      using scan miss by simp
    let ?ps' = "plan_area uc c ?sz ?n cu None (ps\<lparr>dup_untreated := dup, uploaded_iter := ?it\<rparr>)"
    have ps': "plan_step m fs uc c ps = Some ?ps'"
      using ex sc by (simp add: plan_step_def)
    note f = plan_area_None_fields [OF refl [of ?ps']]
    have "iter_inv m fs (c + ?sz) ?ps'"
      unfolding iter_inv_def f(1,4) using nxt al it after_miss [OF m cm c al ge miss] by simp
    with ps' show ?thesis by simp
  qed
qed

lemma area_untreated:
  assumes sz: "0 \<le> sz" and inv: "cancel_inv m fs ul0 ut0 c ps"
    and ex: "extract_cur_untreated c sz (dup_untreated ps) [] = (cu, dup)"
  shows "untreated_sorted dup"
    and "\<forall>x. c + sz \<le> x \<longrightarrow> untreated_at x ut0 \<longrightarrow> untreated_at x dup"
    and "(\<exists>x. c \<le> x \<and> x < c + sz \<and> untreated_at x ut0) \<longrightarrow> cu \<noteq> []"
proof -
  from inv have s: "untreated_sorted (dup_untreated ps)"
    and r: "\<forall>x. c \<le> x \<longrightarrow> untreated_at x ut0 \<longrightarrow> untreated_at x (dup_untreated ps)"
    by (simp_all add: cancel_inv_def)
  note e = extract_cur_untreated_sorted [OF sz s ex]
  from e show "untreated_sorted dup" by simp
  show "\<forall>x. c + sz \<le> x \<longrightarrow> untreated_at x ut0 \<longrightarrow> untreated_at x dup"
  proof (intro allI impI)
    fix x assume x: "c + sz \<le> x" "untreated_at x ut0"
    then have "untreated_at x (dup_untreated ps)" using r sz by simp
    with e x(1) show "untreated_at x dup" by blast
  qed
  show "(\<exists>x. c \<le> x \<and> x < c + sz \<and> untreated_at x ut0) \<longrightarrow> cu \<noteq> []"
    using e r by blast
qed

lemma cancelled_mono:
  assumes "cancelled m fs p ps"
    and "set (ps_upload_list ps') \<subseteq> set (ps_upload_list ps)"
    and "set (cancel_upload_list ps) \<subseteq> set (cancel_upload_list ps')"
    and "set (to_upload_list ps) \<subseteq> set (to_upload_list ps')"
    and "wait_upload_complete ps \<longrightarrow> wait_upload_complete ps'"
  shows "cancelled m fs p ps'"
  using assms unfolding cancelled_def by blast

lemma plan_step_cancel:
  assumes m: "0 < m" and c: "c < fs" and ainv: "iter_inv m fs c ps"
    and cinv: "cancel_inv m fs ul0 ut0 c ps"
    and st: "plan_step m fs uc c ps = Some ps'"
  shows "cancel_inv m fs ul0 ut0 (c + area_size m fs c) ps'"
proof -
  let ?sz = "area_size m fs c"
  let ?n = "int_cast (c div m + 1)"
  let ?ul = "ps_upload_list ps"
  let ?it = "uploaded_iter ps"
  have szpos: "0 < ?sz" by (rule area_size_pos [OF m c])
  then have sz0: "0 \<le> ?sz" by simp
  obtain cu dup where ex: "extract_cur_untreated c ?sz (dup_untreated ps) [] = (cu, dup)"
    by (cases "extract_cur_untreated c ?sz (dup_untreated ps) []")
  note ut = area_untreated [OF sz0 cinv ex]
  from ainv c have cm: "c mod m = 0" and al: "parts_in_areas m fs ?ul" and it: "?it \<le> length ?ul"
    and ge: "\<forall>j. ?it \<le> j \<and> j < length ?ul \<longrightarrow> c \<le> startpos (?ul ! j)"
    by (auto simp: iter_inv_def)
  note scan = scan_uploaded_aligned [OF m cm c al it ge]
  from cinv have pend: "\<forall>p \<in> set ul0. c \<le> startpos p \<longrightarrow> p \<in> set (drop ?it ?ul)"
    and finished: "\<forall>p \<in> set ul0. startpos p < c \<longrightarrow> part_overlapped m fs ut0 p \<longrightarrow> cancelled m fs p ps"
    and w: "wait_upload_complete ps \<longleftrightarrow> (\<exists>p \<in> set (cancel_upload_list ps). \<not> uploaded p)"
    and sets: "set ?ul \<union> set (cancel_upload_list ps) = set ul0"
    by (simp_all add: cancel_inv_def)
  have here: "?it < length ?ul \<and> ?ul ! ?it = p \<and> startpos p = c"
    if "p \<in> set ul0" "c \<le> startpos p" "startpos p < c + ?sz" for p
    using part_at_iterator [OF m c ainv _ that(3)] pend that(1,2) by blast
  show ?thesis
  proof (cases "?it < length ?ul \<and> startpos (?ul ! ?it) = c")
    case hit: True
    let ?p0 = "?ul ! ?it"
    have sc: "scan_uploaded ?ul c ?sz ?it None = Some (Suc ?it, Some ?it)"
      using scan hit by simp
    have "part_in_area m fs ?p0" using al hit by (simp add: parts_in_areas_def list_all_length)
    then have p0: "startpos ?p0 = c" "fp_size ?p0 \<le> ?sz"
      using hit by (simp_all add: part_in_area_def)
    have dr: "drop ?it ?ul = ?p0 # drop (Suc ?it) ?ul"
      using hit by (simp add: Cons_nth_drop_Suc)
    have pend': "p \<in> set (drop (Suc ?it) ?ul)"
      if "p \<in> set ul0" "c + ?sz \<le> startpos p" for p
    proof -
      have "p \<in> set (drop ?it ?ul)" using pend that szpos by simp
      moreover have "p \<noteq> ?p0" using that(2) p0(1) szpos by auto
      ultimately show ?thesis using dr by simp
    qed
    show ?thesis
    proof (cases "cu = []")
      case True
      have ps': "ps' = ps\<lparr>dup_untreated := dup, uploaded_iter := Suc ?it\<rparr>"
        using st ex sc True by (simp add: plan_step_def plan_area_def)
      have clean: "\<not> part_overlapped m fs ut0 ?p0"
        using ut(3) True p0 by (auto simp: part_overlapped_def)
      have d': "cancelled m fs p ps'"
        if "p \<in> set ul0" "startpos p < c + ?sz" "part_overlapped m fs ut0 p" for p
      proof (cases "startpos p < c")
        case True
        with finished that have "cancelled m fs p ps" by simp
        then show ?thesis by (simp add: ps' cancelled_def)
      next
        case False
        with here [OF that(1) _ that(2)] have "p = ?p0" by simp
        with clean that(3) show ?thesis by simp
      qed
      show ?thesis
        unfolding cancel_inv_def using ut(1,2) pend' d' w sets by (simp add: ps')
    next
      case False
      have ps': "ps' = ps\<lparr>dup_untreated := dup,
          wait_upload_complete := (if \<not> uploaded ?p0 then True else wait_upload_complete ps),
          cancel_upload_list := cancel_upload_list ps @ [?p0],
          ps_upload_list := take ?it ?ul @ drop (Suc ?it) ?ul,
          uploaded_iter := ?it,
          to_upload_list := to_upload_list ps
             @ [\<lparr>mp_start = c, mp_size = ?sz, mp_part_num = ?n\<rparr>]\<rparr>"
        using st ex sc False by (auto simp: plan_step_def plan_area_def)
      note er = erase_nth [OF parts_in_areas_distinct [OF al], of ?it]
      have dr': "drop ?it (take ?it ?ul @ drop (Suc ?it) ?ul) = drop (Suc ?it) ?ul"
        using hit by simp
      have c0: "cancelled m fs ?p0 ps'"
        using er(1) hit p0 by (simp add: ps' cancelled_def)
      have d': "cancelled m fs p ps'"
        if "p \<in> set ul0" "startpos p < c + ?sz" "part_overlapped m fs ut0 p" for p
      proof (cases "startpos p < c")
        case True
        with finished that have "cancelled m fs p ps" by simp
        then show ?thesis
        proof (rule cancelled_mono)
          show "set (ps_upload_list ps') \<subseteq> set ?ul" using er(2) hit by (auto simp: ps')
        qed (auto simp: ps')
      next
        case False
        with here [OF that(1) _ that(2)] have "p = ?p0" by simp
        with c0 show ?thesis by simp
      qed
      have w': "wait_upload_complete ps' \<longleftrightarrow> (\<exists>p \<in> set (cancel_upload_list ps'). \<not> uploaded p)"
        using w by (auto simp: ps')
      have sets': "set (ps_upload_list ps') \<union> set (cancel_upload_list ps') = set ul0"
        using er(2) hit sets by (auto simp: ps')
      have pend'': "\<forall>p \<in> set ul0. c + ?sz \<le> startpos p
          \<longrightarrow> p \<in> set (drop (uploaded_iter ps') (ps_upload_list ps'))"
        using pend' dr' by (simp add: ps')
      have u': "untreated_sorted (dup_untreated ps')"
        "\<forall>x. c + ?sz \<le> x \<longrightarrow> untreated_at x ut0 \<longrightarrow> untreated_at x (dup_untreated ps')"
        using ut(1,2) by (simp_all add: ps')
      show ?thesis
        unfolding cancel_inv_def using u' pend'' d' w' sets' by blast
    qed
  next
    case miss: False
    have sc: "scan_uploaded ?ul c ?sz ?it None = Some (?it, None)"
      using scan miss by simp
    let ?ps1 = "ps\<lparr>dup_untreated := dup, uploaded_iter := ?it\<rparr>"
    have ps': "ps' = plan_area uc c ?sz ?n cu None ?ps1"
      using st ex sc by (simp add: plan_step_def)
    note f = plan_area_None_fields [OF ps']
    have d': "cancelled m fs p ps'"
      if "p \<in> set ul0" "startpos p < c + ?sz" "part_overlapped m fs ut0 p" for p
    proof (cases "startpos p < c")
      case True
      with finished that have "cancelled m fs p ps" by simp
      then show ?thesis
        by (rule cancelled_mono) (use f in simp_all)
    next
      case False
      with here [OF that(1) _ that(2)] miss show ?thesis by simp
    qed
    have pend': "\<forall>p \<in> set ul0. c + ?sz \<le> startpos p
        \<longrightarrow> p \<in> set (drop (uploaded_iter ps') (ps_upload_list ps'))"
      using pend szpos f by simp
    have u': "untreated_sorted (dup_untreated ps')"
      "\<forall>x. c + ?sz \<le> x \<longrightarrow> untreated_at x ut0 \<longrightarrow> untreated_at x (dup_untreated ps')"
      using ut(1,2) f by simp_all
    have w': "wait_upload_complete ps' \<longleftrightarrow> (\<exists>p \<in> set (cancel_upload_list ps'). \<not> uploaded p)"
      using w f by simp
    have sets': "set (ps_upload_list ps') \<union> set (cancel_upload_list ps') = set ul0"
      using sets f by simp
    show ?thesis
      unfolding cancel_inv_def using u' pend' d' w' sets' by blast
  qed
qed

lemma plan_loop_cancel:
  assumes "0 < m" "iter_inv m fs c ps" "cancel_inv m fs ul0 ut0 c ps"
  shows "\<exists>ps'. plan_loop m fs uc c ps = Some (True, ps') \<and> cancel_inv m fs ul0 ut0 fs ps'"
  using assms
proof (induction m fs uc c ps rule: plan_loop.induct)
  case (1 m fs uc c ps)
  show ?case
  proof (cases "c < fs")
    case False
    with "1.prems"(2) have "c = fs" by (simp add: iter_inv_def)
    then show ?thesis using "1.prems"(3) by (subst plan_loop.simps) simp
  next
    case True
    from plan_step_iter [OF "1.prems"(1) True "1.prems"(2), of uc]
    obtain ps1 where s: "plan_step m fs uc c ps = Some ps1"
      and i: "iter_inv m fs (c + area_size m fs c) ps1" by blast
    have j: "cancel_inv m fs ul0 ut0 (c + area_size m fs c) ps1"
      by (rule plan_step_cancel [OF "1.prems"(1) True "1.prems"(2,3) s])
    have nm: "\<not> m \<le> 0" using "1.prems"(1) by simp
    from "1.IH" [OF True nm s "1.prems"(1) i j]
    show ?thesis using True nm s by (subst plan_loop.simps) simp
  qed
qed


lemma overlaps_part_overlapped:
  assumes "u \<in> set ut0" "0 < ut_size u" "0 < area_size m fs (startpos p)"
    and "untreated_overlaps (startpos p) (area_size m fs (startpos p)) u"
  shows "part_overlapped m fs ut0 p"
proof -
  let ?x = "max (startpos p) (ut_start u)"
  have "startpos p \<le> ?x \<and> ?x < startpos p + area_size m fs (startpos p)
        \<and> ut_start u \<le> ?x \<and> ?x < ut_start u + ut_size u"
    using assms(2-4) by (auto simp: untreated_overlaps_def)
  then show ?thesis using assms(1) unfolding part_overlapped_def untreated_at_def by blast
qed

text \<open>
  Claim C3, as stated for every slab, fails on two kinds of input; the maximum part size
  is 10 and the file size 20 in each.  First, the upload list holds one part of all 20
  bytes and bytes 15 and 16 are untreated: the second slab holds untreated data and is
  covered by the part, but the scan of the upload list has passed the part in the first
  slab, so the part is not cancelled.  Second, the upload list holds the first slab and
  the untreated list is \<open>(15, 2), (5, 2)\<close>, not in the order of the offsets: the
  search for the untreated areas of the first slab stops at \<open>(15, 2)\<close>, the slab
  counts as clean and its part is not cancelled.
\<close>

theorem ExtractUploadPartsFromAllArea_cancel_counterexample:
  "ExtractUploadPartsFromAllArea [\<lparr>ut_start = 15, ut_size = 2\<rparr>] 10 20 False
     [\<lparr>uploaded = True, fd = 3, startpos = 0, fp_size = 20, is_copy = False,
       petag = Some \<lparr>ep_etag = None, ep_part_num = 1\<rparr>\<rparr>]
   = Some (True,
       \<lparr>dup_untreated = [],
        ps_upload_list =
          [\<lparr>uploaded = True, fd = 3, startpos = 0, fp_size = 20, is_copy = False,
            petag = Some \<lparr>ep_etag = None, ep_part_num = 1\<rparr>\<rparr>],
        uploaded_iter = 1,
        to_upload_list = [\<lparr>mp_start = 10, mp_size = 10, mp_part_num = 2\<rparr>],
        to_copy_list = [],
        to_download_list =
          [\<lparr>mp_start = 10, mp_size = 5, mp_part_num = 0\<rparr>,
           \<lparr>mp_start = 17, mp_size = 3, mp_part_num = 0\<rparr>],
        cancel_upload_list = [], wait_upload_complete = False\<rparr>)
   \<and> ExtractUploadPartsFromAllArea
       [\<lparr>ut_start = 15, ut_size = 2\<rparr>, \<lparr>ut_start = 5, ut_size = 2\<rparr>] 10 20 False
       [\<lparr>uploaded = True, fd = 3, startpos = 0, fp_size = 10, is_copy = False,
         petag = Some \<lparr>ep_etag = None, ep_part_num = 1\<rparr>\<rparr>]
     = Some (True,
         \<lparr>dup_untreated = [],
          ps_upload_list =
            [\<lparr>uploaded = True, fd = 3, startpos = 0, fp_size = 10, is_copy = False,
              petag = Some \<lparr>ep_etag = None, ep_part_num = 1\<rparr>\<rparr>],
          uploaded_iter = 1,
          to_upload_list = [\<lparr>mp_start = 10, mp_size = 10, mp_part_num = 2\<rparr>],
          to_copy_list = [],
          to_download_list =
            [\<lparr>mp_start = 10, mp_size = 5, mp_part_num = 0\<rparr>,
             \<lparr>mp_start = 17, mp_size = 3, mp_part_num = 0\<rparr>],
          cancel_upload_list = [], wait_upload_complete = False\<rparr>)"
  by (simp add: ExtractUploadPartsFromAllArea_def plan_loop.simps plan_step_def
      scan_uploaded.simps plan_area_def area_size_def untreated_overlaps_def
      extract_cur_untreated.simps gap_step_def can_unify_copy_def Let_def int_cast_def)

text \<open>
  Claim C3, amended.  Let the maximum part size and the file size be positive, let the
  upload list be in the order of the offsets with every part starting at the start of a
  slab of the file and lying in that slab, and let the untreated list hold non-empty
  areas in the order of the offsets that do not reach into each other.  Then the
  planner returns \<open>true\<close> and, for every part \<open>p\<close> of the upload list whose slab
  overlaps an untreated area: \<open>p\<close> is no longer in the upload list, it is in
  \<open>cancel_upload_list\<close>, \<open>to_upload\<close> has an entry with the start and the size of
  the whole slab and the part number of the slab (cast to \<open>int\<close>), and
  \<open>wait_upload_complete\<close> is set if the upload of \<open>p\<close> has not completed.
  \<open>wait_upload_complete\<close> is set exactly if some cancelled part has not completed,
  and every part of the upload list is afterwards either still in it or in
  \<open>cancel_upload_list\<close>.
\<close>

theorem ExtractUploadPartsFromAllArea_cancel:
  assumes m: "0 < max_mp_size" and fs: "0 < file_size"
    and al: "parts_in_areas max_mp_size file_size ul"
    and us: "untreated_sorted untreated_list"
  shows "\<exists>ps. ExtractUploadPartsFromAllArea untreated_list max_mp_size file_size use_copy ul
                 = Some (True, ps)
     \<and> (\<forall>p \<in> set ul.
           (\<exists>u \<in> set untreated_list.
              untreated_overlaps (startpos p) (area_size max_mp_size file_size (startpos p)) u)
           \<longrightarrow> p \<notin> set (ps_upload_list ps) \<and> p \<in> set (cancel_upload_list ps)
               \<and> \<lparr>mp_start = startpos p,
                   mp_size = area_size max_mp_size file_size (startpos p),
                   mp_part_num = int_cast (startpos p div max_mp_size + 1)\<rparr> \<in> set (to_upload_list ps)
               \<and> (\<not> uploaded p \<longrightarrow> wait_upload_complete ps))
     \<and> (wait_upload_complete ps \<longleftrightarrow> (\<exists>p \<in> set (cancel_upload_list ps). \<not> uploaded p))
     \<and> set (ps_upload_list ps) \<union> set (cancel_upload_list ps) = set ul"
proof -
  let ?ps0 = "\<lparr>dup_untreated = untreated_list, ps_upload_list = ul, uploaded_iter = 0,
        to_upload_list = [], to_copy_list = [], to_download_list = [],
        cancel_upload_list = [], wait_upload_complete = False\<rparr>"
  have sp: "\<forall>q \<in> set ul. part_in_area max_mp_size file_size q"
    using al by (simp add: parts_in_areas_def list_all_iff)
  then have nonneg: "\<forall>q \<in> set ul. 0 \<le> startpos q" by (simp add: part_in_area_def)
  then have i0: "iter_inv max_mp_size file_size 0 ?ps0"
    using al fs by (simp add: iter_inv_def)
  have j0: "cancel_inv max_mp_size file_size ul untreated_list 0 ?ps0"
    using us nonneg by (auto simp: cancel_inv_def)
  from plan_loop_cancel [OF m i0 j0, of use_copy]
  obtain ps where r: "plan_loop max_mp_size file_size use_copy 0 ?ps0 = Some (True, ps)"
    and j: "cancel_inv max_mp_size file_size ul untreated_list file_size ps" by blast
  have "p \<notin> set (ps_upload_list ps) \<and> p \<in> set (cancel_upload_list ps)
               \<and> \<lparr>mp_start = startpos p,
                   mp_size = area_size max_mp_size file_size (startpos p),
                   mp_part_num = int_cast (startpos p div max_mp_size + 1)\<rparr> \<in> set (to_upload_list ps)
               \<and> (\<not> uploaded p \<longrightarrow> wait_upload_complete ps)"
    if p: "p \<in> set ul" and u: "u \<in> set untreated_list"
      "untreated_overlaps (startpos p) (area_size max_mp_size file_size (startpos p)) u" for p u
  proof -
    have s: "part_in_area max_mp_size file_size p" using sp p by simp
    then have lt: "startpos p < file_size" by (simp add: part_in_area_def)
    have "0 < ut_size u" using us u(1) by (simp add: untreated_sorted_def list_all_iff)
    then have "part_overlapped max_mp_size file_size untreated_list p"
      using u area_size_pos [OF m lt] by (intro overlaps_part_overlapped [of u])
    then have "cancelled max_mp_size file_size p ps" using j p lt by (simp add: cancel_inv_def)
    then show ?thesis by (auto simp: cancelled_def)
  qed
  moreover have "wait_upload_complete ps \<longleftrightarrow> (\<exists>p \<in> set (cancel_upload_list ps). \<not> uploaded p)"
    and "set (ps_upload_list ps) \<union> set (cancel_upload_list ps) = set ul"
    using j by (simp_all add: cancel_inv_def)
  ultimately show ?thesis
    using r unfolding ExtractUploadPartsFromAllArea_def by blast
qed

theorem ExtractUploadPartsFromAllArea_cancel_witness:
  "(0::int) < 10 \<and> (0::int) < 30
   \<and> parts_in_areas 10 30
       [\<lparr>uploaded = False, fd = 3, startpos = 0, fp_size = 10, is_copy = False,
         petag = Some \<lparr>ep_etag = None, ep_part_num = 1\<rparr>\<rparr>,
        \<lparr>uploaded = True, fd = 3, startpos = 10, fp_size = 10, is_copy = False,
         petag = Some \<lparr>ep_etag = None, ep_part_num = 2\<rparr>\<rparr>]
   \<and> untreated_sorted [\<lparr>ut_start = 5, ut_size = 3\<rparr>]
   \<and> untreated_overlaps 0 10 \<lparr>ut_start = 5, ut_size = 3\<rparr>
   \<and> ExtractUploadPartsFromAllArea [\<lparr>ut_start = 5, ut_size = 3\<rparr>] 10 30 False
       [\<lparr>uploaded = False, fd = 3, startpos = 0, fp_size = 10, is_copy = False,
         petag = Some \<lparr>ep_etag = None, ep_part_num = 1\<rparr>\<rparr>,
        \<lparr>uploaded = True, fd = 3, startpos = 10, fp_size = 10, is_copy = False,
         petag = Some \<lparr>ep_etag = None, ep_part_num = 2\<rparr>\<rparr>]
     = Some (True,
         \<lparr>dup_untreated = [],
          ps_upload_list =
            [\<lparr>uploaded = True, fd = 3, startpos = 10, fp_size = 10, is_copy = False,
              petag = Some \<lparr>ep_etag = None, ep_part_num = 2\<rparr>\<rparr>],
          uploaded_iter = 1,
          to_upload_list =
            [\<lparr>mp_start = 0, mp_size = 10, mp_part_num = 1\<rparr>,
             \<lparr>mp_start = 20, mp_size = 10, mp_part_num = 3\<rparr>],
          to_copy_list = [],
          to_download_list = [\<lparr>mp_start = 20, mp_size = 10, mp_part_num = 0\<rparr>],
          cancel_upload_list =
            [\<lparr>uploaded = False, fd = 3, startpos = 0, fp_size = 10, is_copy = False,
              petag = Some \<lparr>ep_etag = None, ep_part_num = 1\<rparr>\<rparr>],
          wait_upload_complete = True\<rparr>)"
proof -
  let ?ul = "[\<lparr>uploaded = False, fd = 3, startpos = 0, fp_size = 10, is_copy = False,
         petag = Some \<lparr>ep_etag = None, ep_part_num = 1\<rparr>\<rparr>,
        \<lparr>uploaded = True, fd = 3, startpos = 10, fp_size = 10, is_copy = False,
         petag = Some \<lparr>ep_etag = None, ep_part_num = 2\<rparr>\<rparr>]"
  have h: "(0::int) < 10" "(0::int) < 30" "parts_in_areas 10 30 ?ul"
    "untreated_sorted [\<lparr>ut_start = 5, ut_size = 3\<rparr>]"
    by (simp_all add: parts_in_areas_def part_in_area_def area_size_def untreated_sorted_def)
  from ExtractUploadPartsFromAllArea_cancel [OF h, of False]
  obtain ps where
    "ExtractUploadPartsFromAllArea [\<lparr>ut_start = 5, ut_size = 3\<rparr>] 10 30 False ?ul = Some (True, ps)"
    by blast
  then show ?thesis
    using h
    by (simp add: ExtractUploadPartsFromAllArea_def plan_loop.simps plan_step_def
      scan_uploaded.simps plan_area_def area_size_def untreated_overlaps_def
      extract_cur_untreated.simps Let_def int_cast_def)
qed


subsection \<open>The gap in front of the first untreated area\<close>


















subsection \<open>Waiting for the worker threads\<close>













lemma first_error_append:
  "first_error (es @ fs) = (if first_error es \<noteq> 0 then first_error es else first_error fs)"
  by (induction es rule: first_error.induct) simp_all








end
